theory Spec2Isabelle
  imports Complex_Main
begin

section \<open>Data model\<close>

text \<open>
  The interfaces of \<^verbatim>\<open>types.ts\<close>. JavaScript numbers are read as real numbers. The
  products of lines 109 and 110 are rounded to doubles, since statements below depend on
  their rounding; the other operations (a difference of times, a sum of a time and a
  delay, the drift and the rotation) are exact, and the statements about them hold for
  the rounded results as well. A field that would clash with a keyword or a library
  constant carries a prime.
\<close>

record Point =
  x :: real
  y :: real

record Bubble =
  id' :: string
  text' :: "string option"
  x :: real
  y :: real
  driftX :: real
  rotation :: real

text \<open>
  The module \<^verbatim>\<open>./constants\<close> is imported by the component and not part of the
  sources at hand; its three exports are parameters of every function below.
\<close>

record Constants =
  SARCASTIC_QUOTES :: "string list"
  BUBBLE_LIFETIME :: real
  SPAWN_COOLDOWN :: real

text \<open>
  What the component takes from the JavaScript engine and the language leaves open: the
  results of the successive calls of \<^verbatim>\<open>Math.random\<close>, by call number, and the text of a
  number in base 36, \<^verbatim>\<open>Number.prototype.toString(36)\<close>, whose digits are left to the
  implementation. Both are parameters of every function below.
\<close>

record Runtime =
  mathRandom :: "nat \<Rightarrow> real"
  toString36 :: "real \<Rightarrow> string"

text \<open>The only exception the frame callback can raise: a property read on \<^verbatim>\<open>undefined\<close>.\<close>

datatype error = TypeError

section \<open>JavaScript primitives\<close>

text \<open>\<^verbatim>\<open>xs[i]\<close>: \<^verbatim>\<open>undefined\<close> (here \<open>None\<close>) out of range.\<close>

definition nth_opt :: "'a list \<Rightarrow> nat \<Rightarrow> 'a option" where
  "nth_opt xs i = (if i < length xs then Some (xs ! i) else None)"

definition bindE :: "error + 'a \<Rightarrow> ('a \<Rightarrow> error + 'b) \<Rightarrow> error + 'b" where
  "bindE m f = (case m of Inl e \<Rightarrow> Inl e | Inr v \<Rightarrow> f v)"

text \<open>\<^verbatim>\<open>p.x\<close> and \<^verbatim>\<open>p.y\<close> throw when \<^verbatim>\<open>p\<close> is \<^verbatim>\<open>undefined\<close>.\<close>

definition prop_x :: "Point option \<Rightarrow> error + real" where
  "prop_x p = (case p of None \<Rightarrow> Inl TypeError | Some q \<Rightarrow> Inr (Point.x q))"

definition prop_y :: "Point option \<Rightarrow> error + real" where
  "prop_y p = (case p of None \<Rightarrow> Inl TypeError | Some q \<Rightarrow> Inr (Point.y q))"

text \<open>Operands are evaluated left to right; \<^verbatim>\<open>&&\<close> skips its right operand on false.\<close>

definition lessE :: "error + real \<Rightarrow> error + real \<Rightarrow> error + bool" where
  "lessE a b = bindE a (\<lambda>u. bindE b (\<lambda>v. Inr (u < v)))"

definition greaterE :: "error + real \<Rightarrow> error + real \<Rightarrow> error + bool" where
  "greaterE a b = bindE a (\<lambda>u. bindE b (\<lambda>v. Inr (u > v)))"

definition andAlso :: "error + bool \<Rightarrow> error + bool \<Rightarrow> error + bool" where
  "andAlso a b = bindE a (\<lambda>u. if u then b else Inr False)"

fun forEachE :: "('a \<Rightarrow> 's \<Rightarrow> error + 's) \<Rightarrow> 'a list \<Rightarrow> 's \<Rightarrow> error + 's" where
  "forEachE f [] s = Inr s"
| "forEachE f (a # as) s = bindE (f a s) (forEachE f as)"

text \<open>\<^verbatim>\<open>s.substr(start, len)\<close> for indices that are not negative.\<close>

definition substr :: "string \<Rightarrow> nat \<Rightarrow> nat \<Rightarrow> string" where
  "substr s start len = take len (drop start s)"

text \<open>
  The result of an arithmetic operation as a double: the nearest number with 53
  significant bits, a tie going to the even one. The range of the exponent is not
  bounded here: no overflow to infinity and no loss of precision near zero.
\<close>

definition roundHalfEven :: "real \<Rightarrow> int" where
  "roundHalfEven m =
     (if m - of_int \<lfloor>m\<rfloor> < 1 / 2 then \<lfloor>m\<rfloor>
      else if m - of_int \<lfloor>m\<rfloor> > 1 / 2 then \<lfloor>m\<rfloor> + 1
      else if even \<lfloor>m\<rfloor> then \<lfloor>m\<rfloor> else \<lfloor>m\<rfloor> + 1)"

definition ulp :: "real \<Rightarrow> real" where
  "ulp v = 2 powr (of_int \<lfloor>log 2 \<bar>v\<bar>\<rfloor> - 52)"

definition roundDouble :: "real \<Rightarrow> real" where
  "roundDouble v = (if v = 0 then 0
                    else sgn v * (of_int (roundHalfEven (\<bar>v\<bar> / ulp v)) * ulp v))"

section \<open>The 2D drawing context\<close>

datatype path_cmd =
  MoveTo real real
| LineTo real real
| Arc real real real real real

text \<open>
  What a \<^verbatim>\<open>stroke()\<close> or a \<^verbatim>\<open>fill()\<close> puts on the canvas: the current path and the
  context properties that painting it reads. \<open>Stroke\<close> carries path, strokeStyle,
  lineWidth, lineCap, lineJoin, shadowBlur, shadowColor; \<open>Fill\<close> carries path, fillStyle,
  shadowBlur, shadowColor.
\<close>

datatype paint =
  Stroke "path_cmd list" string nat string string nat string
| Fill "path_cmd list" string nat string

record Ctx =
  shadowBlur :: nat
  shadowColor :: string
  strokeStyle :: string
  lineWidth :: nat
  lineCap :: string
  lineJoin :: string
  fillStyle :: string
  path :: "path_cmd list"
  painted :: "paint list"

text \<open>\<^verbatim>\<open>clearRect(0, 0, canvas.width, canvas.height)\<close>: the whole canvas.\<close>

definition clearRect :: "Ctx \<Rightarrow> Ctx" where
  "clearRect c = c\<lparr>painted := []\<rparr>"

definition beginPath :: "Ctx \<Rightarrow> Ctx" where
  "beginPath c = c\<lparr>path := []\<rparr>"

definition moveTo :: "real \<Rightarrow> real \<Rightarrow> Ctx \<Rightarrow> Ctx" where
  "moveTo px py c = c\<lparr>path := path c @ [MoveTo px py]\<rparr>"

definition lineTo :: "real \<Rightarrow> real \<Rightarrow> Ctx \<Rightarrow> Ctx" where
  "lineTo px py c = c\<lparr>path := path c @ [LineTo px py]\<rparr>"

definition arc :: "real \<Rightarrow> real \<Rightarrow> real \<Rightarrow> real \<Rightarrow> real \<Rightarrow> Ctx \<Rightarrow> Ctx" where
  "arc px py radius a0 a1 c = c\<lparr>path := path c @ [Arc px py radius a0 a1]\<rparr>"

definition stroke :: "Ctx \<Rightarrow> Ctx" where
  "stroke c = c\<lparr>painted := painted c @
     [Stroke (path c) (strokeStyle c) (lineWidth c) (lineCap c) (lineJoin c)
        (shadowBlur c) (shadowColor c)]\<rparr>"

definition fill :: "Ctx \<Rightarrow> Ctx" where
  "fill c = c\<lparr>painted := painted c @
     [Fill (path c) (fillStyle c) (shadowBlur c) (shadowColor c)]\<rparr>"

section \<open>Component state and the frame's inputs\<close>

text \<open>
  The \<^verbatim>\<open>useState\<close> cells and refs of \<^verbatim>\<open>App\<close> that \<^verbatim>\<open>predict\<close> touches, the canvas
  context, and the effects it leaves with the host: the pending \<^verbatim>\<open>setTimeout\<close>
  callbacks (due time and the id their closure holds), whether
  \<^verbatim>\<open>requestAnimationFrame(predict)\<close> is pending, and how many numbers have been drawn
  from \<^verbatim>\<open>Math.random\<close>. A state update \<^verbatim>\<open>setBubbles(prev => ...)\<close> is applied at once.
  \<open>quoteIndexRef\<close> is \<open>None\<close> when the number is NaN.
\<close>

record AppState =
  bubbles :: "Bubble list"
  activeHandsCount :: nat
  lastSpawnTimeRef :: "real list"
  quoteIndexRef :: "nat option"
  ctx :: Ctx
  timeouts :: "(real \<times> string) list"
  rafPending :: bool
  randomCalls :: nat

text \<open>
  What one invocation of \<^verbatim>\<open>predict\<close> reads from outside: whether video and landmarker
  are ready, \<^verbatim>\<open>performance.now()\<close>, \<^verbatim>\<open>results.landmarks\<close> (\<open>None\<close> for
  \<^verbatim>\<open>undefined\<close>), and the canvas size when both canvas and context exist.
\<close>

record FrameInput =
  ready :: bool
  now :: real
  detected :: "Point list list option"
  canvas :: "(nat \<times> nat) option"

definition initialCtx :: Ctx where
  "initialCtx = \<lparr>shadowBlur = 0, shadowColor = ''rgba(0, 0, 0, 0)'', strokeStyle = ''#000000'',
     lineWidth = 1, lineCap = ''butt'', lineJoin = ''miter'', fillStyle = ''#000000'',
     path = [], painted = []\<rparr>"

text \<open>The state when the camera effect first calls \<^verbatim>\<open>predict()\<close>.\<close>

definition initialState :: AppState where
  "initialState = \<lparr>bubbles = [], activeHandsCount = 0, lastSpawnTimeRef = [0, 0],
     quoteIndexRef = Some 0, ctx = initialCtx, timeouts = [], rafPending = True,
     randomCalls = 0\<rparr>"

section \<open>The frame callback\<close>

definition HAND_CONNECTIONS :: "(nat \<times> nat) list" where
  "HAND_CONNECTIONS =
    [(0, 1), (1, 2), (2, 3), (3, 4),
     (0, 5), (5, 6), (6, 7), (7, 8),
     (0, 9), (9, 10), (10, 11), (11, 12),
     (0, 13), (13, 14), (14, 15), (15, 16),
     (0, 17), (17, 18), (18, 19), (19, 20),
     (5, 9), (9, 13), (13, 17)]"

text \<open>Lines 108--111, each product and the difference rounded to a double.\<close>

definition scaledLandmarks :: "nat \<times> nat \<Rightarrow> Point list \<Rightarrow> Point list" where
  "scaledLandmarks cv landmarks =
     map (\<lambda>lm. \<lparr>Point.x = roundDouble (roundDouble (1 - Point.x lm) * real (fst cv)),
                Point.y = roundDouble (Point.y lm * real (snd cv))\<rparr>) landmarks"

text \<open>Lines 114--124, on the raw landmarks.\<close>

definition thumbsUpActive :: "Point list \<Rightarrow> error + bool" where
  "thumbsUpActive landmarks =
    (let thumbTip = nth_opt landmarks 4;
         thumbIP = nth_opt landmarks 3;
         thumbBase = nth_opt landmarks 2
     in
     bindE (andAlso (lessE (prop_y thumbTip) (prop_y thumbIP))
                    (lessE (prop_y thumbIP) (prop_y thumbBase))) (\<lambda>isThumbExtendedUp.
     bindE (greaterE (prop_y (nth_opt landmarks 8)) (prop_y (nth_opt landmarks 6)))
       (\<lambda>isIndexFolded.
     bindE (greaterE (prop_y (nth_opt landmarks 12)) (prop_y (nth_opt landmarks 10)))
       (\<lambda>isMiddleFolded.
     bindE (greaterE (prop_y (nth_opt landmarks 16)) (prop_y (nth_opt landmarks 14)))
       (\<lambda>isRingFolded.
     bindE (greaterE (prop_y (nth_opt landmarks 20)) (prop_y (nth_opt landmarks 18)))
       (\<lambda>isPinkyFolded.
     Inr (isThumbExtendedUp \<and> isIndexFolded \<and> isMiddleFolded \<and> isRingFolded
          \<and> isPinkyFolded)))))))"

text \<open>Lines 136--141, one connection.\<close>

definition drawConnection :: "Point list \<Rightarrow> nat \<times> nat \<Rightarrow> Ctx \<Rightarrow> error + Ctx" where
  "drawConnection scaled conn c =
    (let start = nth_opt scaled (fst conn);
         endP = nth_opt scaled (snd conn)
     in
     bindE (prop_x start) (\<lambda>sx. bindE (prop_y start) (\<lambda>sy.
     bindE (prop_x endP) (\<lambda>ex. bindE (prop_y endP) (\<lambda>ey.
       Inr (lineTo ex ey (moveTo sx sy c)))))))"

text \<open>Lines 129--142.\<close>

definition drawSkeleton :: "bool \<Rightarrow> Point list \<Rightarrow> Ctx \<Rightarrow> error + Ctx" where
  "drawSkeleton thumbsUp scaled c =
    (let c1 = c\<lparr>shadowBlur := (if thumbsUp then 40 else 10),
                shadowColor := (if thumbsUp then ''#ffffff'' else ''#06b6d4''),
                strokeStyle := (if thumbsUp then ''#ffffff'' else ''#22d3ee''),
                lineWidth := (if thumbsUp then 8 else 3),
                lineCap := ''round'',
                lineJoin := ''round''\<rparr>
     in bindE (forEachE (drawConnection scaled) HAND_CONNECTIONS (beginPath c1))
          (\<lambda>c2. Inr (stroke c2)))"

text \<open>Lines 146--152, one node; the pair is the index and the landmark.\<close>

definition drawNode :: "bool \<Rightarrow> nat \<times> Point \<Rightarrow> Ctx \<Rightarrow> Ctx" where
  "drawNode thumbsUp node c =
    (let isThumbTip = (fst node = 4);
         c1 = c\<lparr>fillStyle := (if isThumbTip then (if thumbsUp then ''#ffffff'' else ''#22d3ee'')
                              else ''#22d3ee'')\<rparr>
     in fill (arc (Point.x (snd node)) (Point.y (snd node))
                (if thumbsUp \<and> isThumbTip then 12 else 4) 0 (pi * 2) (beginPath c1)))"

text \<open>Lines 145--152.\<close>

definition drawNodes :: "bool \<Rightarrow> Point list \<Rightarrow> Ctx \<Rightarrow> Ctx" where
  "drawNodes thumbsUp scaled c =
     fold (drawNode thumbsUp) (enumerate 0 scaled) (c\<lparr>shadowBlur := 0\<rparr>)"

text \<open>
  Lines 157--164: the object literal, its fields evaluated in order. The quote is
  \<^verbatim>\<open>undefined\<close> when the index is NaN or beyond the list.
\<close>

definition newBubble ::
  "Constants \<Rightarrow> Runtime \<Rightarrow> Point list \<Rightarrow> AppState \<Rightarrow> error + Bubble" where
  "newBubble cfg rt scaled st =
    (let spawnPoint = nth_opt scaled 4;
         k = randomCalls st
     in
     bindE (prop_x spawnPoint) (\<lambda>sx. bindE (prop_y spawnPoint) (\<lambda>sy.
       Inr \<lparr>id' = substr (toString36 rt (mathRandom rt k)) 2 9,
            text' = (case quoteIndexRef st of None \<Rightarrow> None
                     | Some q \<Rightarrow> nth_opt (SARCASTIC_QUOTES cfg) q),
            x = sx,
            y = sy,
            driftX = (mathRandom rt (k + 1) - 0.5) * 200,
            rotation = (mathRandom rt (k + 2) - 0.5) * 10\<rparr>)))"

text \<open>
  Line 155, right operand: \<^verbatim>\<open>now - lastSpawnTimeRef.current[handIndex] > SPAWN_COOLDOWN\<close>.
  A slot that does not exist reads as \<^verbatim>\<open>undefined\<close>, the difference is NaN and the
  comparison false.
\<close>

definition gateOpen :: "Constants \<Rightarrow> real \<Rightarrow> nat \<Rightarrow> AppState \<Rightarrow> bool" where
  "gateOpen cfg t handIndex st =
     (case nth_opt (lastSpawnTimeRef st) handIndex of None \<Rightarrow> False
      | Some lastSpawn \<Rightarrow> t - lastSpawn > SPAWN_COOLDOWN cfg)"

text \<open>
  Lines 166--172. The assignment of line 167 is in range, the gate having read the slot.
  The remainder by a length of zero is NaN. The timeout is registered with the frame's
  time as its start.
\<close>

definition afterSpawn :: "Constants \<Rightarrow> real \<Rightarrow> nat \<Rightarrow> Bubble \<Rightarrow> AppState \<Rightarrow> AppState" where
  "afterSpawn cfg t handIndex b st =
     st\<lparr>bubbles := bubbles st @ [b],
        lastSpawnTimeRef := (lastSpawnTimeRef st)[handIndex := t],
        quoteIndexRef :=
          (case quoteIndexRef st of None \<Rightarrow> None
           | Some q \<Rightarrow>
               if length (SARCASTIC_QUOTES cfg) = 0 then None
               else Some ((q + 1) mod length (SARCASTIC_QUOTES cfg))),
        timeouts := timeouts st @ [(t + BUBBLE_LIFETIME cfg, id' b)],
        randomCalls := randomCalls st + 3\<rparr>"

text \<open>Lines 155--173.\<close>

definition triggerQuote ::
  "Constants \<Rightarrow> Runtime \<Rightarrow> real \<Rightarrow> nat \<Rightarrow> bool \<Rightarrow> Point list \<Rightarrow> AppState
   \<Rightarrow> error + AppState" where
  "triggerQuote cfg rt t handIndex thumbsUp scaled st =
    (if thumbsUp \<and> gateOpen cfg t handIndex st
     then bindE (newBubble cfg rt scaled st) (\<lambda>b. Inr (afterSpawn cfg t handIndex b st))
     else Inr st)"

text \<open>
  Lines 107--174: the callback of \<^verbatim>\<open>results.landmarks.forEach\<close>, with the local
  counter \<^verbatim>\<open>handsActiveThisFrame\<close> passed along.
\<close>

definition processHand ::
  "Constants \<Rightarrow> Runtime \<Rightarrow> real \<Rightarrow> nat \<times> nat \<Rightarrow> nat \<Rightarrow> Point list
   \<Rightarrow> nat \<times> AppState \<Rightarrow> error + nat \<times> AppState" where
  "processHand cfg rt t cv handIndex landmarks acc =
    (let handsActiveThisFrame = fst acc;
         st = snd acc;
         scaled = scaledLandmarks cv landmarks
     in
     bindE (thumbsUpActive landmarks) (\<lambda>thumbsUp.
     bindE (drawSkeleton thumbsUp scaled (ctx st)) (\<lambda>c1.
     bindE (triggerQuote cfg rt t handIndex thumbsUp scaled
              (st\<lparr>ctx := drawNodes thumbsUp scaled c1\<rparr>)) (\<lambda>st'.
       Inr (if thumbsUp then handsActiveThisFrame + 1 else handsActiveThisFrame, st')))))"

text \<open>
  \<^verbatim>\<open>forEach\<close> over the hands. An exception leaves the loop with the state reached
  before the offending hand: \<open>processHand\<close> throws in the classifier or not at all
  (lemmas \<open>processHand_throws\<close> and \<open>processHand_result\<close>), before it has changed
  anything.
\<close>

fun forEachHand ::
  "Constants \<Rightarrow> Runtime \<Rightarrow> real \<Rightarrow> nat \<times> nat \<Rightarrow> nat \<Rightarrow> Point list list
   \<Rightarrow> nat \<times> AppState \<Rightarrow> (error + nat) \<times> AppState" where
  "forEachHand cfg rt t cv handIndex [] acc = (Inr (fst acc), snd acc)"
| "forEachHand cfg rt t cv handIndex (landmarks # rest) acc =
     (case processHand cfg rt t cv handIndex landmarks acc of
        Inl e \<Rightarrow> (Inl e, snd acc)
      | Inr acc' \<Rightarrow> forEachHand cfg rt t cv (Suc handIndex) rest acc')"

text \<open>
  Lines 90--180. The result is \<open>Inr ()\<close> when the callback returns, having called
  \<^verbatim>\<open>requestAnimationFrame(predict)\<close>, and the exception when it does not.
\<close>

definition predict ::
  "Constants \<Rightarrow> Runtime \<Rightarrow> FrameInput \<Rightarrow> AppState \<Rightarrow> (error + unit) \<times> AppState" where
  "predict cfg rt f st =
    (if \<not> ready f then (Inr (), st\<lparr>rafPending := True\<rparr>)
     else
       (case canvas f of
          None \<Rightarrow> (Inr (), st\<lparr>rafPending := True\<rparr>)
        | Some cv \<Rightarrow>
            (let st1 = st\<lparr>ctx := clearRect (ctx st)\<rparr>;
                 r = (case detected f of
                        None \<Rightarrow> (Inr 0, st1)
                      | Some hands \<Rightarrow>
                          (if length hands > 0
                           then forEachHand cfg rt (now f) cv 0 hands (0, st1)
                           else (Inr 0, st1)))
             in
             (case fst r of
                Inl e \<Rightarrow> (Inl e, snd r)
              | Inr handsActiveThisFrame \<Rightarrow>
                  (Inr (), (snd r)\<lparr>activeHandsCount := handsActiveThisFrame,
                                    rafPending := True\<rparr>)))))"

section \<open>The host's side: animation frames and timers\<close>

text \<open>Line 171: the callback of the timeout whose closure holds the id \<open>i\<close>.\<close>

definition expire :: "string \<Rightarrow> AppState \<Rightarrow> AppState" where
  "expire i st = st\<lparr>bubbles := filter (\<lambda>b. id' b \<noteq> i) (bubbles st)\<rparr>"

text \<open>
  The timers of a host that is never late: at time \<open>t\<close> every timeout due by then has
  run, in the order of registration, and is no longer pending.
\<close>

definition runTimeouts :: "real \<Rightarrow> AppState \<Rightarrow> AppState" where
  "runTimeouts t st =
     (fold (\<lambda>d. expire (snd d)) (filter (\<lambda>d. fst d \<le> t) (timeouts st)) st)
       \<lparr>timeouts := filter (\<lambda>d. \<not> fst d \<le> t) (timeouts st)\<rparr>"

text \<open>
  The host calls \<open>predict\<close> only when an animation frame was requested; after an
  exception none is, and the loop has stopped.
\<close>

definition animationFrame ::
  "Constants \<Rightarrow> Runtime \<Rightarrow> FrameInput \<Rightarrow> AppState \<Rightarrow> AppState" where
  "animationFrame cfg rt f st =
     (if rafPending st then snd (predict cfg rt f (st\<lparr>rafPending := False\<rparr>)) else st)"

datatype event = AnimationFrame FrameInput | TimersUpTo real

definition hostStep :: "Constants \<Rightarrow> Runtime \<Rightarrow> event \<Rightarrow> AppState \<Rightarrow> AppState" where
  "hostStep cfg rt ev st =
     (case ev of AnimationFrame f \<Rightarrow> animationFrame cfg rt f st
      | TimersUpTo t \<Rightarrow> runTimeouts t st)"

section \<open>Observations on runs\<close>

text \<open>The hands the loop of line 107 iterates over.\<close>

definition handsOf :: "FrameInput \<Rightarrow> Point list list" where
  "handsOf f = (case detected f of None \<Rightarrow> [] | Some hands \<Rightarrow> hands)"

text \<open>The bubbles that the frames of a run append to the live list, in order.\<close>

fun spawnedBy :: "Constants \<Rightarrow> Runtime \<Rightarrow> event list \<Rightarrow> AppState \<Rightarrow> Bubble list" where
  "spawnedBy cfg rt [] st = []"
| "spawnedBy cfg rt (ev # evs) st =
     (case ev of
        AnimationFrame f \<Rightarrow> drop (length (bubbles st)) (bubbles (hostStep cfg rt ev st))
      | TimersUpTo t \<Rightarrow> [])
     @ spawnedBy cfg rt evs (hostStep cfg rt ev st)"

text \<open>The times of the frames of a run in which the live list grew.\<close>

fun fireTimes :: "Constants \<Rightarrow> Runtime \<Rightarrow> FrameInput list \<Rightarrow> AppState \<Rightarrow> real list" where
  "fireTimes cfg rt [] st = []"
| "fireTimes cfg rt (f # fs) st =
     (if length (bubbles (animationFrame cfg rt f st)) > length (bubbles st)
      then [now f] else [])
     @ fireTimes cfg rt fs (animationFrame cfg rt f st)"

text \<open>
  A bubble that is live, with its timeout pending at \<open>due\<close> and no pending timeout
  that carries its id due any earlier.
\<close>

definition liveUntil :: "Bubble \<Rightarrow> real \<Rightarrow> AppState \<Rightarrow> bool" where
  "liveUntil b due s =
     (b \<in> set (bubbles s) \<and> (due, id' b) \<in> set (timeouts s) \<and>
      (\<forall>d \<in> set (timeouts s). snd d = id' b \<longrightarrow> due \<le> fst d))"

text \<open>
  A frame of a gesture held by a single hand: video and canvas are there, one hand is
  detected and the classifier says yes.
\<close>

definition heldFrame :: "FrameInput \<Rightarrow> bool" where
  "heldFrame f =
     (ready f \<and> canvas f \<noteq> None \<and>
      (case detected f of
         Some [landmarks] \<Rightarrow> thumbsUpActive landmarks = Inr True
       | _ \<Rightarrow> False))"

text \<open>
  The gate as the specification words it, purely time-based: of the times offered, one
  fires when it lies more than the cooldown after the last one that fired.
\<close>

fun gateTimes :: "real \<Rightarrow> real \<Rightarrow> real list \<Rightarrow> real list" where
  "gateTimes cooldown lastFired [] = []"
| "gateTimes cooldown lastFired (t # ts) =
     (if t - lastFired > cooldown then t # gateTimes cooldown t ts
      else gateTimes cooldown lastFired ts)"

text \<open>
  Round-robin assignment as the specification words it: the quotes of \<open>n\<close> successive
  spawns, the first of which takes the quote at index \<open>q\<close>, in list order and back to
  the start after the last entry.
\<close>

definition roundRobin :: "string list \<Rightarrow> nat \<Rightarrow> nat \<Rightarrow> string option list" where
  "roundRobin quotes q n = map (\<lambda>k. Some (quotes ! ((q + k) mod length quotes))) [0..<n]"

text \<open>
  The visual emphasis of a painting operation: colour, stroke width (none for a fill),
  shadow blur and colour, and the radii of the markers in its path.
\<close>

fun radii :: "path_cmd list \<Rightarrow> real list" where
  "radii [] = []"
| "radii (Arc px py radius a0 a1 # p) = radius # radii p"
| "radii (MoveTo px py # p) = radii p"
| "radii (LineTo px py # p) = radii p"

fun emphasis :: "paint \<Rightarrow> string \<times> nat option \<times> nat \<times> string \<times> real list" where
  "emphasis (Stroke p colour width cap join blur glow) = (colour, Some width, blur, glow, radii p)"
| "emphasis (Fill p colour blur glow) = (colour, None, blur, glow, radii p)"

section \<open>Closed forms\<close>

text \<open>The path that lines 136--141 build from landmarks that are all there.\<close>

definition connPath :: "Point list \<Rightarrow> (nat \<times> nat) list \<Rightarrow> path_cmd list" where
  "connPath scaled conns =
     concat (map (\<lambda>conn. [MoveTo (Point.x (scaled ! fst conn)) (Point.y (scaled ! fst conn)),
                          LineTo (Point.x (scaled ! snd conn)) (Point.y (scaled ! snd conn))])
               conns)"

text \<open>What the marker of one node paints, after the skeleton of the same hand.\<close>

definition nodePaint :: "bool \<Rightarrow> nat \<times> Point \<Rightarrow> paint" where
  "nodePaint thumbsUp node =
     Fill [Arc (Point.x (snd node)) (Point.y (snd node))
             (if thumbsUp \<and> fst node = 4 then 12 else 4) 0 (pi * 2)]
       (if thumbsUp \<and> fst node = 4 then ''#ffffff'' else ''#22d3ee'') 0
       (if thumbsUp then ''#ffffff'' else ''#06b6d4'')"

text \<open>What lines 129--152 paint for one hand of at least 21 landmarks.\<close>

definition overlay :: "bool \<Rightarrow> Point list \<Rightarrow> paint list" where
  "overlay thumbsUp scaled =
     Stroke (connPath scaled HAND_CONNECTIONS) (if thumbsUp then ''#ffffff'' else ''#22d3ee'')
       (if thumbsUp then 8 else 3) ''round'' ''round'' (if thumbsUp then 40 else 10)
       (if thumbsUp then ''#ffffff'' else ''#06b6d4'')
     # map (nodePaint thumbsUp) (enumerate 0 scaled)"

text \<open>The context that lines 129--152 leave behind for such a hand.\<close>

definition handCtx :: "bool \<Rightarrow> Point list \<Rightarrow> Ctx \<Rightarrow> Ctx" where
  "handCtx thumbsUp scaled c =
     drawNodes thumbsUp scaled
       (c\<lparr>shadowBlur := (if thumbsUp then 40 else 10),
          shadowColor := (if thumbsUp then ''#ffffff'' else ''#06b6d4''),
          strokeStyle := (if thumbsUp then ''#ffffff'' else ''#22d3ee''),
          lineWidth := (if thumbsUp then 8 else 3),
          lineCap := ''round'',
          lineJoin := ''round'',
          path := connPath scaled HAND_CONNECTIONS,
          painted := painted c @ [hd (overlay thumbsUp scaled)]\<rparr>)"

text \<open>The bubble of lines 157--164 when the thumb tip is there.\<close>

definition spawned :: "Constants \<Rightarrow> Runtime \<Rightarrow> Point list \<Rightarrow> AppState \<Rightarrow> Bubble" where
  "spawned cfg rt scaled st =
     \<lparr>id' = substr (toString36 rt (mathRandom rt (randomCalls st))) 2 9,
      text' = (case quoteIndexRef st of None \<Rightarrow> None
               | Some q \<Rightarrow> nth_opt (SARCASTIC_QUOTES cfg) q),
      x = Point.x (scaled ! 4),
      y = Point.y (scaled ! 4),
      driftX = (mathRandom rt (randomCalls st + 1) - 0.5) * 200,
      rotation = (mathRandom rt (randomCalls st + 2) - 0.5) * 10\<rparr>"

section \<open>Sample inputs\<close>

text \<open>A fist with the thumb up, in normalised image coordinates (y grows downwards).\<close>

definition thumbsUpHand :: "Point list" where
  "thumbsUpHand = map (\<lambda>p. \<lparr>Point.x = fst p, Point.y = snd p\<rparr>)
     [(0.50, 0.80), (0.44, 0.72), (0.40, 0.62), (0.39, 0.52), (0.38, 0.42),
      (0.48, 0.55), (0.56, 0.52), (0.58, 0.57), (0.53, 0.58),
      (0.49, 0.61), (0.57, 0.59), (0.59, 0.64), (0.54, 0.65),
      (0.50, 0.67), (0.57, 0.66), (0.58, 0.70), (0.54, 0.71),
      (0.51, 0.73), (0.56, 0.72), (0.57, 0.75), (0.54, 0.76)]"

text \<open>The same hand with the index fingertip exactly level with its middle joint.\<close>

definition tieHand :: "Point list" where
  "tieHand = thumbsUpHand[8 := \<lparr>Point.x = 0.53, Point.y = 0.52\<rparr>]"

text \<open>
  A fist with the thumb up whose coordinates are multiples of \<open>1 / 16\<close>, so that their
  products with a canvas side of 1280 or 720 are whole numbers.
\<close>

definition dyadicHand :: "Point list" where
  "dyadicHand = map (\<lambda>p. \<lparr>Point.x = fst p / 16, Point.y = snd p / 16\<rparr>)
     [(8, 14), (7, 11), (6, 8), (6, 6), (6, 4),
      (8, 8), (9, 9), (9, 10), (8, 10),
      (8, 9), (9, 10), (9, 11), (8, 11),
      (8, 10), (9, 11), (9, 12), (8, 12),
      (8, 11), (9, 12), (9, 13), (8, 13)]"

text \<open>
  The same hand with a thumb that is almost level: its tip lies one step of the doubles
  near \<open>3 / 4\<close> above the next joint.
\<close>

definition nearTieHand :: "Point list" where
  "nearTieHand = dyadicHand
     [4 := \<lparr>Point.x = 3 / 8, Point.y = 3 / 4 + 1 / 2 ^ 53\<rparr>,
      3 := \<lparr>Point.x = 3 / 8, Point.y = 3 / 4 + 2 / 2 ^ 53\<rparr>,
      2 := \<lparr>Point.x = 3 / 8, Point.y = 7 / 8\<rparr>]"

text \<open>The same hand with its last landmark missing.\<close>

definition shortHand :: "Point list" where
  "shortHand = take 20 thumbsUpHand"

text \<open>
  A sample for the text of a number below \<open>1\<close> in base 36: the digits of its exact
  expansion (a double below \<open>1\<close> is a multiple of \<open>2 ^ -1074\<close> and \<open>36 ^ 537\<close> is a multiple
  of \<open>2 ^ 1074\<close>, so 537 digits exhaust it). Engines print only as many digits as identify
  the double and round the last one, so this is what they print where the expansion is
  short, as for \<open>0\<close>, \<open>1 / 2\<close> and \<open>3 / 4\<close>: \<^verbatim>\<open>"0"\<close>, \<^verbatim>\<open>"0.i"\<close> and \<^verbatim>\<open>"0.r"\<close>. The samples
  draw no other random numbers.
\<close>

definition digit36 :: "nat \<Rightarrow> char" where
  "digit36 d = ''0123456789abcdefghijklmnopqrstuvwxyz'' ! d"

fun fracDigits36 :: "nat \<Rightarrow> real \<Rightarrow> string" where
  "fracDigits36 0 r = []"
| "fracDigits36 (Suc n) r =
     (if r = 0 then []
      else digit36 (nat \<lfloor>r * 36\<rfloor>) # fracDigits36 n (r * 36 - of_int \<lfloor>r * 36\<rfloor>))"

definition exactBase36 :: "real \<Rightarrow> string" where
  "exactBase36 r = (if r = 0 then ''0'' else ''0.'' @ fracDigits36 537 r)"

text \<open>An engine whose random numbers are given and that prints them so.\<close>

definition sampleRuntime :: "(nat \<Rightarrow> real) \<Rightarrow> Runtime" where
  "sampleRuntime r = \<lparr>mathRandom = r, toString36 = exactBase36\<rparr>"

definition sampleConstants :: Constants where
  "sampleConstants = \<lparr>SARCASTIC_QUOTES = [''first'', ''second'', ''third''],
     BUBBLE_LIFETIME = 8000, SPAWN_COOLDOWN = 400\<rparr>"

definition sampleFrame :: "real \<Rightarrow> Point list list \<Rightarrow> FrameInput" where
  "sampleFrame t hands = \<lparr>ready = True, now = t, detected = Some hands,
     canvas = Some (1280, 720)\<rparr>"

section \<open>Basic facts\<close>

lemma nth_opt_in [simp]: "i < length xs \<Longrightarrow> nth_opt xs i = Some (xs ! i)"
  by (simp add: nth_opt_def)

lemma nth_opt_out [simp]: "\<not> i < length xs \<Longrightarrow> nth_opt xs i = None"
  by (simp add: nth_opt_def)

lemma bindE_Inr [simp]: "bindE (Inr v) f = f v"
  by (simp add: bindE_def)

lemma bindE_Inl [simp]: "bindE (Inl e) f = Inl e"
  by (simp add: bindE_def)

lemma prop_y_Some [simp]: "prop_y (Some q) = Inr (Point.y q)"
  by (simp add: prop_y_def)

lemma prop_y_None [simp]: "prop_y None = Inl TypeError"
  by (simp add: prop_y_def)

lemma prop_x_Some [simp]: "prop_x (Some q) = Inr (Point.x q)"
  by (simp add: prop_x_def)

lemma prop_x_None [simp]: "prop_x None = Inl TypeError"
  by (simp add: prop_x_def)

lemma length_scaledLandmarks [simp]: "length (scaledLandmarks cv lms) = length lms"
  by (simp add: scaledLandmarks_def)

lemma length_thumbsUpHand [simp]: "length thumbsUpHand = 21"
  by (simp add: thumbsUpHand_def)

lemma length_tieHand [simp]: "length tieHand = 21"
  by (simp add: tieHand_def)

lemma length_shortHand [simp]: "length shortHand = 20"
  by (simp add: shortHand_def)

section \<open>The classifier\<close>

lemma thumbsUpActive_full:
  assumes "21 \<le> length lms"
  shows "thumbsUpActive lms =
    Inr (Point.y (lms ! 4) < Point.y (lms ! 3) \<and> Point.y (lms ! 3) < Point.y (lms ! 2)
       \<and> Point.y (lms ! 8) > Point.y (lms ! 6) \<and> Point.y (lms ! 12) > Point.y (lms ! 10)
       \<and> Point.y (lms ! 16) > Point.y (lms ! 14) \<and> Point.y (lms ! 20) > Point.y (lms ! 18))"
  using assms by (simp add: thumbsUpActive_def lessE_def greaterE_def andAlso_def)

lemma thumbsUpActive_short:
  assumes "length lms < 21"
  shows "thumbsUpActive lms = Inl TypeError"
proof -
  have "\<not> 20 < length lms" using assms by simp
  then show ?thesis
    by (simp add: thumbsUpActive_def lessE_def greaterE_def andAlso_def nth_opt_def
          prop_y_def bindE_def split: sum.splits)
qed

lemma thumbsUpActive_Inr_length:
  assumes "thumbsUpActive lms = Inr a"
  shows "21 \<le> length lms"
proof (rule ccontr)
  assume "\<not> 21 \<le> length lms"
  then have "length lms < 21" by simp
  from thumbsUpActive_short [OF this] assms show False by simp
qed

lemma thumbsUpHand_active: "thumbsUpActive thumbsUpHand = Inr True"
  by (simp add: thumbsUpActive_full) (simp add: thumbsUpHand_def)

lemma tieHand_inactive: "thumbsUpActive tieHand = Inr False"
  by (simp add: thumbsUpActive_full) (simp add: tieHand_def thumbsUpHand_def)

text \<open>
  C1. On a landmark set of at least 21 points the classifier does not throw, and it says
  yes exactly when landmark 4 lies strictly above landmark 3 and that strictly above
  landmark 2 (smaller y), and each of the fingertips 8, 12, 16, 20 lies strictly below
  its middle joint 6, 10, 14, 18 (greater y). A tie in any of the pairs gives no.
\<close>

theorem classifier_strict_inequalities:
  assumes "21 \<le> length landmarks"
  shows "thumbsUpActive landmarks =
    Inr (Point.y (landmarks ! 4) < Point.y (landmarks ! 3)
       \<and> Point.y (landmarks ! 3) < Point.y (landmarks ! 2)
       \<and> Point.y (landmarks ! 8) > Point.y (landmarks ! 6)
       \<and> Point.y (landmarks ! 12) > Point.y (landmarks ! 10)
       \<and> Point.y (landmarks ! 16) > Point.y (landmarks ! 14)
       \<and> Point.y (landmarks ! 20) > Point.y (landmarks ! 18))"
  using assms by (rule thumbsUpActive_full)

theorem classifier_strict_inequalities_witness:
  "21 \<le> length thumbsUpHand \<and> thumbsUpActive thumbsUpHand = Inr True
   \<and> 21 \<le> length tieHand \<and> Point.y (tieHand ! 8) = Point.y (tieHand ! 6)
   \<and> thumbsUpActive tieHand = Inr False"
proof -
  have l1: "21 \<le> length thumbsUpHand" and l2: "21 \<le> length tieHand"
    by simp_all
  have "thumbsUpActive thumbsUpHand = Inr True"
    using classifier_strict_inequalities [OF l1] by (simp add: thumbsUpHand_def)
  moreover have "thumbsUpActive tieHand = Inr False"
    using classifier_strict_inequalities [OF l2] by (simp add: tieHand_def thumbsUpHand_def)
  moreover have "Point.y (tieHand ! 8) = Point.y (tieHand ! 6)"
    by (simp add: tieHand_def thumbsUpHand_def)
  ultimately show ?thesis using l1 l2 by simp
qed

section \<open>Drawing one hand\<close>

lemma forEachE_connections:
  assumes "\<forall>conn \<in> set conns. fst conn < length scaled \<and> snd conn < length scaled"
  shows "forEachE (drawConnection scaled) conns c =
    Inr (c\<lparr>path := path c @ connPath scaled conns\<rparr>)"
  using assms
proof (induction conns arbitrary: c)
  case Nil
  then show ?case by (simp add: connPath_def)
next
  case (Cons conn conns)
  then show ?case
    by (simp add: connPath_def drawConnection_def moveTo_def lineTo_def)
qed

lemma HAND_CONNECTIONS_bound:
  "\<forall>conn \<in> set HAND_CONNECTIONS. fst conn < 21 \<and> snd conn < 21"
  by (simp add: HAND_CONNECTIONS_def)

lemma drawSkeleton_ok:
  assumes "21 \<le> length scaled"
  shows "drawSkeleton a scaled c =
    Inr (c\<lparr>shadowBlur := (if a then 40 else 10),
            shadowColor := (if a then ''#ffffff'' else ''#06b6d4''),
            strokeStyle := (if a then ''#ffffff'' else ''#22d3ee''),
            lineWidth := (if a then 8 else 3),
            lineCap := ''round'',
            lineJoin := ''round'',
            path := connPath scaled HAND_CONNECTIONS,
            painted := painted c @ [hd (overlay a scaled)]\<rparr>)"
proof -
  have b: "\<forall>conn \<in> set HAND_CONNECTIONS. fst conn < length scaled \<and> snd conn < length scaled"
    using HAND_CONNECTIONS_bound assms by fastforce
  show ?thesis
    by (simp add: drawSkeleton_def forEachE_connections [OF b] beginPath_def stroke_def
          overlay_def Let_def)
qed

lemma fold_drawNode:
  "shadowBlur (fold (drawNode a) nodes c) = shadowBlur c \<and>
   shadowColor (fold (drawNode a) nodes c) = shadowColor c \<and>
   painted (fold (drawNode a) nodes c) = painted c @
     map (\<lambda>node. Fill [Arc (Point.x (snd node)) (Point.y (snd node))
                         (if a \<and> fst node = 4 then 12 else 4) 0 (pi * 2)]
            (if a \<and> fst node = 4 then ''#ffffff'' else ''#22d3ee'')
            (shadowBlur c) (shadowColor c)) nodes"
proof (induction nodes arbitrary: c)
  case Nil
  then show ?case by simp
next
  case (Cons node nodes)
  have step: "shadowBlur (drawNode a node c) = shadowBlur c"
    "shadowColor (drawNode a node c) = shadowColor c"
    "painted (drawNode a node c) = painted c @
       [Fill [Arc (Point.x (snd node)) (Point.y (snd node))
                (if a \<and> fst node = 4 then 12 else 4) 0 (pi * 2)]
          (if a \<and> fst node = 4 then ''#ffffff'' else ''#22d3ee'')
          (shadowBlur c) (shadowColor c)]"
    by (auto simp add: drawNode_def fill_def arc_def beginPath_def Let_def)
  show ?case
    by (simp add: Cons.IH step)
qed

lemma drawNodes_painted:
  assumes "shadowColor c = (if a then ''#ffffff'' else ''#06b6d4'')"
  shows "painted (drawNodes a scaled c) = painted c @ map (nodePaint a) (enumerate 0 scaled)"
  using assms fold_drawNode [of a "enumerate 0 scaled" "c\<lparr>shadowBlur := 0\<rparr>"]
  by (simp add: drawNodes_def nodePaint_def)

lemma painted_handCtx: "painted (handCtx a scaled c) = painted c @ overlay a scaled"
proof -
  let ?c1 = "c\<lparr>shadowBlur := (if a then 40 else 10),
            shadowColor := (if a then ''#ffffff'' else ''#06b6d4''),
            strokeStyle := (if a then ''#ffffff'' else ''#22d3ee''),
            lineWidth := (if a then 8 else 3),
            lineCap := ''round'',
            lineJoin := ''round'',
            path := connPath scaled HAND_CONNECTIONS,
            painted := painted c @ [hd (overlay a scaled)]\<rparr>"
  have "shadowColor ?c1 = (if a then ''#ffffff'' else ''#06b6d4'')"
    by simp
  from drawNodes_painted [OF this]
  show ?thesis by (simp add: handCtx_def overlay_def)
qed

section \<open>One hand\<close>

lemma newBubble_ok:
  assumes "4 < length scaled"
  shows "newBubble cfg rt scaled st = Inr (spawned cfg rt scaled st)"
  using assms by (simp add: newBubble_def spawned_def Let_def)

lemma spawned_ctx [simp]: "spawned cfg rt scaled (st\<lparr>ctx := c\<rparr>) = spawned cfg rt scaled st"
  by (simp add: spawned_def)

lemma gateOpen_ctx [simp]: "gateOpen cfg t i (st\<lparr>ctx := c\<rparr>) = gateOpen cfg t i st"
  by (simp add: gateOpen_def)

lemma gateOpen_slot:
  "i < length (lastSpawnTimeRef st) \<Longrightarrow>
   gateOpen cfg t i st = (t - lastSpawnTimeRef st ! i > SPAWN_COOLDOWN cfg)"
  by (simp add: gateOpen_def)

lemma gateOpen_no_slot:
  "\<not> i < length (lastSpawnTimeRef st) \<Longrightarrow> \<not> gateOpen cfg t i st"
  by (simp add: gateOpen_def)

lemma triggerQuote_ok:
  assumes "4 < length scaled"
  shows "triggerQuote cfg rt t i a scaled st =
     Inr (if a \<and> gateOpen cfg t i st
          then afterSpawn cfg t i (spawned cfg rt scaled st) st else st)"
  using assms by (simp add: triggerQuote_def newBubble_ok)

lemma processHand_result:
  assumes "thumbsUpActive lms = Inr a"
  shows "processHand cfg rt t cv i lms (n, st) =
       Inr (if a then n + 1 else n,
            if a \<and> gateOpen cfg t i st
            then afterSpawn cfg t i (spawned cfg rt (scaledLandmarks cv lms) st)
                   (st\<lparr>ctx := handCtx a (scaledLandmarks cv lms) (ctx st)\<rparr>)
            else st\<lparr>ctx := handCtx a (scaledLandmarks cv lms) (ctx st)\<rparr>)"
proof -
  let ?scaled = "scaledLandmarks cv lms"
  have len: "21 \<le> length ?scaled"
    using thumbsUpActive_Inr_length [OF assms] by simp
  then have len4: "4 < length ?scaled" by simp
  show ?thesis
    by (simp add: processHand_def assms Let_def drawSkeleton_ok [OF len] handCtx_def
          triggerQuote_ok [OF len4])
qed

lemma processHand_throws:
  assumes "length lms < 21"
  shows "processHand cfg rt t cv i lms acc = Inl TypeError"
  by (simp add: processHand_def thumbsUpActive_short [OF assms] Let_def)

lemma processHand_Inr_active:
  assumes "processHand cfg rt t cv i lms (n, st) = Inr (n', st')"
  shows "\<exists>a. thumbsUpActive lms = Inr a"
proof (cases "thumbsUpActive lms")
  case (Inl e)
  then show ?thesis using assms by (simp add: processHand_def Let_def)
next
  case (Inr a)
  then show ?thesis by blast
qed

text \<open>The shape of a successful hand, for use by elimination.\<close>

lemma processHand_InrE:
  assumes "processHand cfg rt t cv i lms (n, st) = Inr (n', st')"
  obtains a where "thumbsUpActive lms = Inr a"
    and "n' = (if a then n + 1 else n)"
    and "st' = (if a \<and> gateOpen cfg t i st
            then afterSpawn cfg t i (spawned cfg rt (scaledLandmarks cv lms) st)
                   (st\<lparr>ctx := handCtx a (scaledLandmarks cv lms) (ctx st)\<rparr>)
            else st\<lparr>ctx := handCtx a (scaledLandmarks cv lms) (ctx st)\<rparr>)"
proof -
  obtain a where a: "thumbsUpActive lms = Inr a"
    using processHand_Inr_active [OF assms] by blast
  from processHand_result [OF a, of cfg rt t cv i n st] assms that [OF a]
  show thesis by simp
qed

section \<open>All hands of a frame\<close>

lemma forEachHand_full:
  assumes "\<forall>lms \<in> set hands. 21 \<le> length lms"
  shows "fst (forEachHand cfg rt t cv i hands (n, st)) =
    Inr (n + length (filter (\<lambda>lms. thumbsUpActive lms = Inr True) hands))"
  using assms
proof (induction hands arbitrary: i n st)
  case Nil
  then show ?case by simp
next
  case (Cons lms hands)
  from Cons.prems have "21 \<le> length lms" by simp
  then obtain a where a: "thumbsUpActive lms = Inr a"
    using thumbsUpActive_full by blast
  from processHand_result [OF a, of cfg rt t cv i n st]
  obtain st' where st': "processHand cfg rt t cv i lms (n, st) = Inr (if a then n + 1 else n, st')"
    by blast
  from Cons.prems have rest: "\<forall>lms \<in> set hands. 21 \<le> length lms" by simp
  show ?case
    using Cons.IH [OF rest, of "Suc i" "if a then n + 1 else n" st'] a st'
    by simp
qed

lemma forEachHand_short:
  assumes "\<exists>lms \<in> set hands. length lms < 21"
  shows "forEachHand cfg rt t cv i hands acc =
    (Inl TypeError,
     snd (forEachHand cfg rt t cv i (takeWhile (\<lambda>lms. 21 \<le> length lms) hands) acc))"
  using assms
proof (induction hands arbitrary: i acc)
  case Nil
  then show ?case by simp
next
  case (Cons lms hands)
  show ?case
  proof (cases "length lms < 21")
    case True
    then show ?thesis
      by (simp add: processHand_throws)
  next
    case False
    then have full: "21 \<le> length lms" by simp
    with Cons.prems have rest: "\<exists>lms \<in> set hands. length lms < 21" by auto
    obtain a where a: "thumbsUpActive lms = Inr a"
      using thumbsUpActive_full [OF full] by blast
    from processHand_result [OF a, of cfg rt t cv i "fst acc" "snd acc"]
    obtain acc' where acc': "processHand cfg rt t cv i lms acc = Inr acc'"
      by auto
    show ?thesis
      using Cons.IH [OF rest, of "Suc i" acc'] acc' full by simp
  qed
qed

text \<open>
  A relation between states that every successful hand establishes, and that is
  reflexive and transitive, holds across the loop, however it ends.
\<close>

lemma forEachHand_rel:
  assumes refl: "\<And>s. Q s s"
    and trans: "\<And>s1 s2 s3. Q s1 s2 \<Longrightarrow> Q s2 s3 \<Longrightarrow> Q s1 s3"
    and step: "\<And>i lms n s n' s'. processHand cfg rt t cv i lms (n, s) = Inr (n', s') \<Longrightarrow> Q s s'"
  shows "Q (snd acc) (snd (forEachHand cfg rt t cv i hands acc))"
proof (induction hands arbitrary: i acc)
  case Nil
  then show ?case by (simp add: refl)
next
  case (Cons lms hands)
  show ?case
  proof (cases "processHand cfg rt t cv i lms acc")
    case (Inl e)
    then show ?thesis by (simp add: refl)
  next
    case (Inr acc')
    then have "processHand cfg rt t cv i lms (fst acc, snd acc) = Inr (fst acc', snd acc')"
      by simp
    from step [OF this] have one: "Q (snd acc) (snd acc')" .
    have "Q (snd acc') (snd (forEachHand cfg rt t cv (Suc i) hands acc'))"
      by (rule Cons.IH)
    from trans [OF one this] Inr
    show ?thesis by simp
  qed
qed

section \<open>The frame\<close>

lemma predict_not_ready:
  "\<not> ready f \<Longrightarrow> predict cfg rt f st = (Inr (), st\<lparr>rafPending := True\<rparr>)"
  by (simp add: predict_def)

lemma predict_no_canvas:
  "canvas f = None \<Longrightarrow> predict cfg rt f st = (Inr (), st\<lparr>rafPending := True\<rparr>)"
  by (simp add: predict_def)

lemma predict_ready:
  assumes "ready f" and "canvas f = Some cv"
  shows "predict cfg rt f st =
    (case fst (forEachHand cfg rt (now f) cv 0 (handsOf f) (0, st\<lparr>ctx := clearRect (ctx st)\<rparr>)) of
       Inl e \<Rightarrow>
         (Inl e, snd (forEachHand cfg rt (now f) cv 0 (handsOf f)
                         (0, st\<lparr>ctx := clearRect (ctx st)\<rparr>)))
     | Inr k \<Rightarrow>
         (Inr (), (snd (forEachHand cfg rt (now f) cv 0 (handsOf f)
                          (0, st\<lparr>ctx := clearRect (ctx st)\<rparr>)))
                    \<lparr>activeHandsCount := k, rafPending := True\<rparr>))"
proof -
  let ?st1 = "st\<lparr>ctx := clearRect (ctx st)\<rparr>"
  have loop: "(case detected f of
                 None \<Rightarrow> (Inr 0, ?st1)
               | Some hands \<Rightarrow>
                   (if length hands > 0
                    then forEachHand cfg rt (now f) cv 0 hands (0, ?st1)
                    else (Inr 0, ?st1)))
              = forEachHand cfg rt (now f) cv 0 (handsOf f) (0, ?st1)"
    by (cases "detected f") (auto simp add: handsOf_def)
  show ?thesis
    using assms by (simp add: predict_def Let_def loop cong: sum.case_cong)
qed

lemma fracDigits36_numeral:
  "fracDigits36 (numeral k) r =
     (if r = 0 then []
      else digit36 (nat \<lfloor>r * 36\<rfloor>) # fracDigits36 (pred_numeral k) (r * 36 - of_int \<lfloor>r * 36\<rfloor>))"
  by (simp add: numeral_eq_Suc)

lemma sampleRuntime_simps [simp]:
  "mathRandom (sampleRuntime r) = r" "toString36 (sampleRuntime r) = exactBase36"
  by (simp_all add: sampleRuntime_def)

lemma randomId_half: "substr (exactBase36 (1 / 2)) 2 9 = ''i''"
  by (simp add: substr_def exactBase36_def fracDigits36_numeral digit36_def)

lemma randomId_zero: "substr (exactBase36 0) 2 9 = ''''"
  by (simp add: substr_def exactBase36_def)

lemma afterSpawn_simps [simp]:
  "bubbles (afterSpawn cfg t i b st) = bubbles st @ [b]"
  "lastSpawnTimeRef (afterSpawn cfg t i b st) = (lastSpawnTimeRef st)[i := t]"
  "timeouts (afterSpawn cfg t i b st) = timeouts st @ [(t + BUBBLE_LIFETIME cfg, id' b)]"
  "randomCalls (afterSpawn cfg t i b st) = randomCalls st + 3"
  "ctx (afterSpawn cfg t i b st) = ctx st"
  "activeHandsCount (afterSpawn cfg t i b st) = activeHandsCount st"
  "rafPending (afterSpawn cfg t i b st) = rafPending st"
  "quoteIndexRef (afterSpawn cfg t i b st) =
     (case quoteIndexRef st of None \<Rightarrow> None
      | Some q \<Rightarrow> if length (SARCASTIC_QUOTES cfg) = 0 then None
                  else Some ((q + 1) mod length (SARCASTIC_QUOTES cfg)))"
  by (simp_all add: afterSpawn_def)

lemma spawned_simps [simp]:
  "id' (spawned cfg rt scaled st) = substr (toString36 rt (mathRandom rt (randomCalls st))) 2 9"
  "text' (spawned cfg rt scaled st) =
     (case quoteIndexRef st of None \<Rightarrow> None | Some q \<Rightarrow> nth_opt (SARCASTIC_QUOTES cfg) q)"
  "driftX (spawned cfg rt scaled st) = (mathRandom rt (randomCalls st + 1) - 0.5) * 200"
  "rotation (spawned cfg rt scaled st) = (mathRandom rt (randomCalls st + 2) - 0.5) * 10"
  "Bubble.x (spawned cfg rt scaled st) = Point.x (scaled ! 4)"
  "Bubble.y (spawned cfg rt scaled st) = Point.y (scaled ! 4)"
  by (simp_all add: spawned_def)

text \<open>What a hand leaves untouched.\<close>

lemma processHand_frame_fields:
  assumes "processHand cfg rt t cv i lms (n, st) = Inr (n', st')"
  shows "activeHandsCount st' = activeHandsCount st \<and> rafPending st' = rafPending st"
  using assms by (elim processHand_InrE) simp

lemma forEachHand_frame_fields:
  "activeHandsCount (snd (forEachHand cfg rt t cv i hands acc)) = activeHandsCount (snd acc) \<and>
   rafPending (snd (forEachHand cfg rt t cv i hands acc)) = rafPending (snd acc)"
  by (rule forEachHand_rel
      [where Q = "\<lambda>s s'. activeHandsCount s' = activeHandsCount s \<and> rafPending s' = rafPending s"])
    (auto dest: processHand_frame_fields)

section \<open>The count of active hands\<close>

text \<open>
  C8. A frame with video and canvas whose hands all have at least 21 landmarks returns
  normally, and the count it passes to \<^verbatim>\<open>setActiveHandsCount\<close> is the number of detected
  hands on which the classifier says yes. The right-hand side does not mention the
  state before the frame: the count is set anew, not added to.
\<close>

theorem active_count_reported:
  assumes "ready f" and "canvas f = Some cv"
    and "\<forall>landmarks \<in> set (handsOf f). 21 \<le> length landmarks"
  shows "fst (predict cfg rt f st) = Inr () \<and>
    activeHandsCount (snd (predict cfg rt f st)) =
      length (filter (\<lambda>landmarks. thumbsUpActive landmarks = Inr True) (handsOf f))"
  using forEachHand_full [OF assms(3), of cfg rt "now f" cv 0 0 "st\<lparr>ctx := clearRect (ctx st)\<rparr>"]
  by (simp add: predict_ready [OF assms(1,2)])

lemma sampleFrame_simps [simp]:
  "ready (sampleFrame t hands)" "now (sampleFrame t hands) = t"
  "canvas (sampleFrame t hands) = Some (1280, 720)"
  "detected (sampleFrame t hands) = Some hands"
  "handsOf (sampleFrame t hands) = hands"
  by (simp_all add: sampleFrame_def handsOf_def)

theorem active_count_reported_witness:
  "ready (sampleFrame 1000 [thumbsUpHand, tieHand])
   \<and> canvas (sampleFrame 1000 [thumbsUpHand, tieHand]) = Some (1280, 720)
   \<and> list_all (\<lambda>landmarks. 21 \<le> length landmarks) (handsOf (sampleFrame 1000 [thumbsUpHand, tieHand]))
   \<and> activeHandsCount (snd (predict sampleConstants (sampleRuntime (\<lambda>k. 1 / 2))
         (sampleFrame 1000 [thumbsUpHand, tieHand]) (initialState\<lparr>activeHandsCount := 2\<rparr>))) = 1"
proof -
  let ?f = "sampleFrame 1000 [thumbsUpHand, tieHand]"
  have h: "\<forall>landmarks \<in> set (handsOf ?f). 21 \<le> length landmarks" by simp
  from active_count_reported [OF _ _ h, of "(1280, 720)" sampleConstants "sampleRuntime (\<lambda>k. 1 / 2)"
      "initialState\<lparr>activeHandsCount := 2\<rparr>"]
  show ?thesis
    by (simp add: thumbsUpHand_active tieHand_inactive)
qed

section \<open>Hands with missing landmarks\<close>

lemma initialState_simps [simp]:
  "bubbles initialState = []" "activeHandsCount initialState = 0"
  "lastSpawnTimeRef initialState = [0, 0]" "quoteIndexRef initialState = Some 0"
  "timeouts initialState = []" "rafPending initialState" "randomCalls initialState = 0"
  "painted (ctx initialState) = []"
  by (simp_all add: initialState_def initialCtx_def)

lemma sampleConstants_simps [simp]:
  "SARCASTIC_QUOTES sampleConstants = [''first'', ''second'', ''third'']"
  "BUBBLE_LIFETIME sampleConstants = 8000" "SPAWN_COOLDOWN sampleConstants = 400"
  by (simp_all add: sampleConstants_def)

lemma painted_clearRect [simp]: "painted (clearRect c) = []"
  by (simp add: clearRect_def)

text \<open>
  C3, as stated, fails. There is no check of the number of landmarks: reading \<^verbatim>\<open>.y\<close> of
  a missing landmark throws. With a hand of 20 landmarks first and a thumbs-up hand second,
  the frame ends in the exception, nothing is painted and nothing spawned, although the
  second hand alone spawns a bubble in the same state.
\<close>

theorem short_hand_aborts_frame:
  "fst (predict sampleConstants (sampleRuntime (\<lambda>k. 1 / 2)) (sampleFrame 1000 [shortHand, thumbsUpHand])
          initialState) = Inl TypeError
   \<and> length shortHand < 21
   \<and> bubbles (snd (predict sampleConstants (sampleRuntime (\<lambda>k. 1 / 2))
          (sampleFrame 1000 [shortHand, thumbsUpHand]) initialState)) = []
   \<and> painted (ctx (snd (predict sampleConstants (sampleRuntime (\<lambda>k. 1 / 2))
          (sampleFrame 1000 [shortHand, thumbsUpHand]) initialState))) = []
   \<and> length (bubbles (snd (predict sampleConstants (sampleRuntime (\<lambda>k. 1 / 2))
          (sampleFrame 1000 [thumbsUpHand]) initialState))) = 1"
  by (simp add: predict_ready [of _ "(1280, 720)"] processHand_throws
        processHand_result [OF thumbsUpHand_active] gateOpen_def)

text \<open>
  C3, amended. A frame with video and canvas returns normally exactly when every detected
  hand has at least 21 landmarks. Otherwise it ends in a TypeError at the first hand with
  fewer: the hands before it have been processed, no later hand is, the count of active
  hands is not reported and no further animation frame is requested.
\<close>

theorem frame_completes_iff_hands_full:
  assumes "ready f" and "canvas f = Some cv"
  shows "(fst (predict cfg rt f st) = Inr ())
           = (\<forall>landmarks \<in> set (handsOf f). 21 \<le> length landmarks)
    \<and> ((\<exists>landmarks \<in> set (handsOf f). length landmarks < 21) \<longrightarrow>
         predict cfg rt f st =
           (Inl TypeError,
            snd (forEachHand cfg rt (now f) cv 0
                   (takeWhile (\<lambda>landmarks. 21 \<le> length landmarks) (handsOf f))
                   (0, st\<lparr>ctx := clearRect (ctx st)\<rparr>)))
         \<and> activeHandsCount (snd (predict cfg rt f st)) = activeHandsCount st
         \<and> rafPending (snd (predict cfg rt f st)) = rafPending st)"
proof (cases "\<forall>landmarks \<in> set (handsOf f). 21 \<le> length landmarks")
  case True
  from forEachHand_full [OF True, of cfg rt "now f" cv 0 0 "st\<lparr>ctx := clearRect (ctx st)\<rparr>"]
  have "fst (predict cfg rt f st) = Inr ()"
    by (simp add: predict_ready [OF assms])
  moreover from True have "\<not> (\<exists>landmarks \<in> set (handsOf f). length landmarks < 21)"
    by auto
  ultimately show ?thesis using True by blast
next
  case False
  then have short: "\<exists>landmarks \<in> set (handsOf f). length landmarks < 21"
    by (auto simp add: not_le)
  let ?acc = "(0, st\<lparr>ctx := clearRect (ctx st)\<rparr>)"
  let ?pre = "takeWhile (\<lambda>landmarks. 21 \<le> length landmarks) (handsOf f)"
  have p: "predict cfg rt f st = (Inl TypeError, snd (forEachHand cfg rt (now f) cv 0 ?pre ?acc))"
    by (simp add: predict_ready [OF assms] forEachHand_short [OF short])
  have "activeHandsCount (snd (forEachHand cfg rt (now f) cv 0 ?pre ?acc)) = activeHandsCount st"
    and "rafPending (snd (forEachHand cfg rt (now f) cv 0 ?pre ?acc)) = rafPending st"
    using forEachHand_frame_fields [of cfg rt "now f" cv 0 ?pre ?acc] by simp_all
  with p False show ?thesis by simp
qed

theorem frame_completes_iff_hands_full_witness:
  "ready (sampleFrame 1000 [thumbsUpHand, tieHand])
   \<and> canvas (sampleFrame 1000 [thumbsUpHand, tieHand]) = Some (1280, 720)
   \<and> fst (predict sampleConstants (sampleRuntime (\<lambda>k. 1 / 2)) (sampleFrame 1000 [thumbsUpHand, tieHand])
            initialState) = Inr ()
   \<and> list_ex (\<lambda>landmarks. length landmarks < 21) [thumbsUpHand, shortHand, thumbsUpHand]
   \<and> fst (predict sampleConstants (sampleRuntime (\<lambda>k. 1 / 2))
            (sampleFrame 1000 [thumbsUpHand, shortHand, thumbsUpHand]) initialState)
       = Inl TypeError
   \<and> length (bubbles (snd (predict sampleConstants (sampleRuntime (\<lambda>k. 1 / 2))
            (sampleFrame 1000 [thumbsUpHand, shortHand, thumbsUpHand]) initialState))) = 1
   \<and> activeHandsCount (snd (predict sampleConstants (sampleRuntime (\<lambda>k. 1 / 2))
            (sampleFrame 1000 [thumbsUpHand, shortHand, thumbsUpHand])
            (initialState\<lparr>activeHandsCount := 2\<rparr>))) = 2"
proof -
  let ?fa = "sampleFrame 1000 [thumbsUpHand, tieHand]"
  let ?fb = "sampleFrame 1000 [thumbsUpHand, shortHand, thumbsUpHand]"
  have ra: "ready ?fa" and ca: "canvas ?fa = Some (1280, 720)"
    and rb: "ready ?fb" and cb: "canvas ?fb = Some (1280, 720)"
    by simp_all
  have a: "fst (predict sampleConstants (sampleRuntime (\<lambda>k. 1 / 2)) ?fa initialState) = Inr ()"
    using frame_completes_iff_hands_full [OF ra ca, of sampleConstants "sampleRuntime (\<lambda>k. 1 / 2)" initialState]
    by simp
  have b: "predict sampleConstants (sampleRuntime (\<lambda>k. 1 / 2)) ?fb initialState =
      (Inl TypeError, snd (forEachHand sampleConstants (sampleRuntime (\<lambda>k. 1 / 2)) 1000 (1280, 720) 0
         [thumbsUpHand] (0, initialState\<lparr>ctx := clearRect (ctx initialState)\<rparr>)))"
    using frame_completes_iff_hands_full [OF rb cb, of sampleConstants "sampleRuntime (\<lambda>k. 1 / 2)" initialState]
    by simp
  have c: "activeHandsCount (snd (predict sampleConstants (sampleRuntime (\<lambda>k. 1 / 2)) ?fb
      (initialState\<lparr>activeHandsCount := 2\<rparr>))) = 2"
    using frame_completes_iff_hands_full [OF rb cb, of sampleConstants "sampleRuntime (\<lambda>k. 1 / 2)"
        "initialState\<lparr>activeHandsCount := 2\<rparr>"]
    by (simp add: processHand_result [OF thumbsUpHand_active] gateOpen_def)
  have d: "length (bubbles (snd (forEachHand sampleConstants (sampleRuntime (\<lambda>k. 1 / 2)) 1000 (1280, 720) 0
         [thumbsUpHand] (0, initialState\<lparr>ctx := clearRect (ctx initialState)\<rparr>)))) = 1"
    by (simp add: processHand_result [OF thumbsUpHand_active] gateOpen_def)
  show ?thesis
    using a b c d by simp
qed

section \<open>The cooldown gate\<close>

lemma processHand_gate:
  assumes hand: "processHand cfg rt t cv i landmarks (n, st) = Inr (n', st')"
    and slot: "i < length (lastSpawnTimeRef st)"
  shows "(length (bubbles st') = length (bubbles st) + 1)
           = (thumbsUpActive landmarks = Inr True \<and> t - lastSpawnTimeRef st ! i > SPAWN_COOLDOWN cfg)"
    and "lastSpawnTimeRef st' =
           (if thumbsUpActive landmarks = Inr True \<and> t - lastSpawnTimeRef st ! i > SPAWN_COOLDOWN cfg
            then (lastSpawnTimeRef st)[i := t] else lastSpawnTimeRef st)"
    and "bubbles st' =
           (if thumbsUpActive landmarks = Inr True \<and> t - lastSpawnTimeRef st ! i > SPAWN_COOLDOWN cfg
            then bubbles st @ [spawned cfg rt (scaledLandmarks cv landmarks) st] else bubbles st)"
  using hand gateOpen_slot [OF slot, of cfg t]
  by (elim processHand_InrE; simp)+

lemma gateTimes_spacing:
  "successively (\<lambda>t1 t2. t2 - t1 > cooldown) (gateTimes cooldown lastFired ts) \<and>
   (gateTimes cooldown lastFired ts \<noteq> [] \<longrightarrow> hd (gateTimes cooldown lastFired ts) - lastFired > cooldown)"
proof (induction ts arbitrary: lastFired)
  case Nil
  then show ?case by simp
next
  case (Cons t ts)
  show ?case
    using Cons.IH [of t] Cons.IH [of lastFired]
    by (auto simp add: successively_Cons)
qed

lemma gateOpen_rafPending [simp]:
  "gateOpen cfg t i (st\<lparr>rafPending := r\<rparr>) = gateOpen cfg t i st"
  by (simp add: gateOpen_def)

lemma spawned_rafPending [simp]:
  "spawned cfg rt scaled (st\<lparr>rafPending := r\<rparr>) = spawned cfg rt scaled st"
  by (simp add: spawned_def)

lemma animationFrame_held:
  assumes held: "heldFrame f" and raf: "rafPending st" and slot: "lastSpawnTimeRef st \<noteq> []"
  shows "rafPending (animationFrame cfg rt f st)"
    and "lastSpawnTimeRef (animationFrame cfg rt f st) =
           (if now f - lastSpawnTimeRef st ! 0 > SPAWN_COOLDOWN cfg
            then (lastSpawnTimeRef st)[0 := now f] else lastSpawnTimeRef st)"
    and "length (bubbles (animationFrame cfg rt f st)) =
           (if now f - lastSpawnTimeRef st ! 0 > SPAWN_COOLDOWN cfg
            then Suc (length (bubbles st)) else length (bubbles st))"
proof -
  from held obtain cv lms where r: "ready f" and c: "canvas f = Some cv"
    and d: "detected f = Some [lms]" and a: "thumbsUpActive lms = Inr True"
    by (auto simp add: heldFrame_def split: option.splits list.splits)
  have h: "handsOf f = [lms]" by (simp add: handsOf_def d)
  have s0: "0 < length (lastSpawnTimeRef st)" using slot by simp
  have g: "gateOpen cfg (now f) 0 st = (now f - lastSpawnTimeRef st ! 0 > SPAWN_COOLDOWN cfg)"
    using s0 by (simp add: gateOpen_def)
  show "rafPending (animationFrame cfg rt f st)"
    and "lastSpawnTimeRef (animationFrame cfg rt f st) =
           (if now f - lastSpawnTimeRef st ! 0 > SPAWN_COOLDOWN cfg
            then (lastSpawnTimeRef st)[0 := now f] else lastSpawnTimeRef st)"
    and "length (bubbles (animationFrame cfg rt f st)) =
           (if now f - lastSpawnTimeRef st ! 0 > SPAWN_COOLDOWN cfg
            then Suc (length (bubbles st)) else length (bubbles st))"
    using raf by (simp_all add: animationFrame_def predict_ready [OF r c] h processHand_result [OF a] g)
qed

lemma fireTimes_held:
  assumes "\<forall>f \<in> set fs. heldFrame f" and "rafPending st" and "lastSpawnTimeRef st \<noteq> []"
  shows "fireTimes cfg rt fs st =
    gateTimes (SPAWN_COOLDOWN cfg) (lastSpawnTimeRef st ! 0) (map now fs)"
  using assms
proof (induction fs arbitrary: st)
  case Nil
  then show ?case by simp
next
  case (Cons f fs)
  from Cons.prems have held: "heldFrame f" and rest: "\<forall>f \<in> set fs. heldFrame f"
    by simp_all
  note step = animationFrame_held [OF held Cons.prems(2,3), of cfg rt]
  have slot': "lastSpawnTimeRef (animationFrame cfg rt f st) \<noteq> []"
    using Cons.prems(3) by (simp add: step(2))
  have ih: "fireTimes cfg rt fs (animationFrame cfg rt f st) =
      gateTimes (SPAWN_COOLDOWN cfg) (lastSpawnTimeRef (animationFrame cfg rt f st) ! 0) (map now fs)"
    by (rule Cons.IH [OF rest step(1) slot'])
  show ?case
    using Cons.prems(3) by (cases "lastSpawnTimeRef st") (simp_all add: ih step(2,3))
qed

text \<open>
  C2. For a hand that is processed at a slot that exists, a bubble is spawned exactly
  when the classifier says yes and the time since the slot's last spawn strictly exceeds
  the cooldown; then the slot is set to the frame's time, and otherwise slots and bubbles
  stay as they are. Over a run of frames in which a single hand holds the gesture, the
  frames that spawn are those the purely time-based gate picks from the frame times, so
  successive spawns lie more than the cooldown apart and no release is needed in between.
\<close>

theorem cooldown_gate:
  "(processHand cfg rt t cv i landmarks (n, st) = Inr (n', st') \<and> i < length (lastSpawnTimeRef st)
      \<longrightarrow>
      (length (bubbles st') = length (bubbles st) + 1)
         = (thumbsUpActive landmarks = Inr True \<and> t - lastSpawnTimeRef st ! i > SPAWN_COOLDOWN cfg)
      \<and> lastSpawnTimeRef st' =
           (if thumbsUpActive landmarks = Inr True \<and> t - lastSpawnTimeRef st ! i > SPAWN_COOLDOWN cfg
            then (lastSpawnTimeRef st)[i := t] else lastSpawnTimeRef st)
      \<and> bubbles st' =
           (if thumbsUpActive landmarks = Inr True \<and> t - lastSpawnTimeRef st ! i > SPAWN_COOLDOWN cfg
            then bubbles st @ [spawned cfg rt (scaledLandmarks cv landmarks) st] else bubbles st))
   \<and> ((\<forall>f \<in> set fs. heldFrame f) \<and> rafPending st0 \<and> lastSpawnTimeRef st0 \<noteq> []
      \<longrightarrow>
      fireTimes cfg rt fs st0 =
        gateTimes (SPAWN_COOLDOWN cfg) (lastSpawnTimeRef st0 ! 0) (map now fs)
      \<and> successively (\<lambda>t1 t2. t2 - t1 > SPAWN_COOLDOWN cfg) (fireTimes cfg rt fs st0))"
proof (intro conjI impI)
  assume a: "processHand cfg rt t cv i landmarks (n, st) = Inr (n', st') \<and> i < length (lastSpawnTimeRef st)"
  then have hand: "processHand cfg rt t cv i landmarks (n, st) = Inr (n', st')"
    and slot: "i < length (lastSpawnTimeRef st)" by simp_all
  show "(length (bubbles st') = length (bubbles st) + 1)
         = (thumbsUpActive landmarks = Inr True \<and> t - lastSpawnTimeRef st ! i > SPAWN_COOLDOWN cfg)"
    by (rule processHand_gate(1) [OF hand slot])
  show "lastSpawnTimeRef st' =
           (if thumbsUpActive landmarks = Inr True \<and> t - lastSpawnTimeRef st ! i > SPAWN_COOLDOWN cfg
            then (lastSpawnTimeRef st)[i := t] else lastSpawnTimeRef st)"
    by (rule processHand_gate(2) [OF hand slot])
  show "bubbles st' =
           (if thumbsUpActive landmarks = Inr True \<and> t - lastSpawnTimeRef st ! i > SPAWN_COOLDOWN cfg
            then bubbles st @ [spawned cfg rt (scaledLandmarks cv landmarks) st] else bubbles st)"
    by (rule processHand_gate(3) [OF hand slot])
next
  assume b: "(\<forall>f \<in> set fs. heldFrame f) \<and> rafPending st0 \<and> lastSpawnTimeRef st0 \<noteq> []"
  then have eq: "fireTimes cfg rt fs st0 =
        gateTimes (SPAWN_COOLDOWN cfg) (lastSpawnTimeRef st0 ! 0) (map now fs)"
    using fireTimes_held [of fs st0 cfg rt] by blast
  then show "fireTimes cfg rt fs st0 =
        gateTimes (SPAWN_COOLDOWN cfg) (lastSpawnTimeRef st0 ! 0) (map now fs)" .
  show "successively (\<lambda>t1 t2. t2 - t1 > SPAWN_COOLDOWN cfg) (fireTimes cfg rt fs st0)"
    using gateTimes_spacing [of "SPAWN_COOLDOWN cfg" "lastSpawnTimeRef st0 ! 0" "map now fs"]
    by (simp add: eq)
qed

lemma heldFrame_sample [simp]: "heldFrame (sampleFrame t [thumbsUpHand])"
  by (simp add: heldFrame_def thumbsUpHand_active)

theorem cooldown_gate_witness:
  "(\<exists>n' st'. processHand sampleConstants (sampleRuntime (\<lambda>k. 1 / 2)) 1000 (1280, 720) 0 thumbsUpHand
        (0, initialState) = Inr (n', st')
      \<and> 0 < length (lastSpawnTimeRef initialState)
      \<and> length (bubbles st') = length (bubbles initialState) + 1
      \<and> lastSpawnTimeRef st' = [1000, 0])
   \<and> list_all heldFrame (map (\<lambda>t. sampleFrame t [thumbsUpHand]) [1000, 1050, 1300, 1450, 2000])
   \<and> rafPending initialState \<and> lastSpawnTimeRef initialState \<noteq> []
   \<and> fireTimes sampleConstants (sampleRuntime (\<lambda>k. 1 / 2))
        (map (\<lambda>t. sampleFrame t [thumbsUpHand]) [1000, 1050, 1300, 1450, 2000]) initialState
      = [1000, 1450, 2000]"
proof -
  let ?r = "sampleRuntime (\<lambda>k. 1 / 2)"
  let ?fs = "map (\<lambda>t. sampleFrame t [thumbsUpHand]) [1000, 1050, 1300, 1450, 2000]"
  obtain st' where hand: "processHand sampleConstants ?r 1000 (1280, 720) 0 thumbsUpHand
      (0, initialState) = Inr (1, st')"
    by (simp add: processHand_result [OF thumbsUpHand_active])
  have held: "\<forall>f \<in> set ?fs. heldFrame f" by simp
  note gate = cooldown_gate [of sampleConstants ?r 1000 "(1280, 720)" 0 thumbsUpHand 0
      initialState 1 st' ?fs initialState]
  have one: "length (bubbles st') = length (bubbles initialState) + 1
      \<and> lastSpawnTimeRef st' = [1000, 0]"
    using gate hand by (simp add: thumbsUpHand_active)
  have run: "fireTimes sampleConstants ?r ?fs initialState = [1000, 1450, 2000]"
    using gate held by simp
  from hand one run show ?thesis by simp
qed

section \<open>Visual emphasis\<close>

lemma radii_connPath [simp]: "radii (connPath scaled conns) = []"
  by (induction conns) (simp_all add: connPath_def)

lemma map_enumerate_index:
  "map (\<lambda>node. g (fst node)) (enumerate k xs) = map g [k..<k + length xs]"
proof (induction xs arbitrary: k)
  case Nil
  then show ?case by simp
next
  case (Cons a xs)
  have "[k..<k + length (a # xs)] = k # [Suc k..<Suc k + length xs]"
    by (subst upt_rec) simp
  then show ?case by (simp add: Cons.IH)
qed

lemma emphasis_overlay:
  "map emphasis (overlay a scaled) =
     ((if a then ''#ffffff'' else ''#22d3ee''), Some (if a then 8 else 3), (if a then 40 else 10),
      (if a then ''#ffffff'' else ''#06b6d4''), [])
     # map (\<lambda>k. ((if a \<and> k = 4 then ''#ffffff'' else ''#22d3ee''), None, 0,
                   (if a then ''#ffffff'' else ''#06b6d4''),
                   [if a \<and> k = 4 then 12 else 4]))
         [0..<length scaled]"
proof -
  have "map emphasis (map (nodePaint a) (enumerate 0 scaled)) =
      map (\<lambda>node. (\<lambda>k. ((if a \<and> k = 4 then ''#ffffff'' else ''#22d3ee''), None, 0,
                   (if a then ''#ffffff'' else ''#06b6d4''),
                   [if a \<and> k = 4 then 12 else 4])) (fst node)) (enumerate 0 scaled)"
    by (simp add: nodePaint_def)
  also have "\<dots> = map (\<lambda>k. ((if a \<and> k = 4 then ''#ffffff'' else ''#22d3ee''), None, 0,
                   (if a then ''#ffffff'' else ''#06b6d4''),
                   [if a \<and> k = 4 then 12 else 4])) [0..<0 + length scaled]"
    by (rule map_enumerate_index)
  finally show ?thesis by (simp add: overlay_def)
qed

lemma processHand_painted:
  assumes "processHand cfg rt t cv i lms (n, st) = Inr (n', st')"
    and "thumbsUpActive lms = Inr a"
  shows "painted (ctx st') = painted (ctx st) @ overlay a (scaledLandmarks cv lms)"
  using assms by (elim processHand_InrE) (auto simp add: painted_handCtx)

text \<open>
  C7. Take the same landmark set processed in any two situations: states, cooldown slots,
  times, slot indices, random sources and constants may all differ. Both times the hand
  adds to the canvas the overlay of its classifier result and its scaled landmarks, and
  nothing else. The emphasis of that overlay (colours, stroke width, glow, marker radii)
  is the same both times, whatever the canvas sizes, and is the list spelled out below:
  it depends on the classifier result and on the number of landmarks only.
\<close>

theorem emphasis_ignores_cooldown:
  assumes "processHand cfg1 rnd1 t1 cv1 i1 landmarks (n1, st1) = Inr (m1, st1')"
    and "processHand cfg2 rnd2 t2 cv2 i2 landmarks (n2, st2) = Inr (m2, st2')"
  shows "\<exists>thumbsUp.
    thumbsUpActive landmarks = Inr thumbsUp
    \<and> painted (ctx st1') = painted (ctx st1) @ overlay thumbsUp (scaledLandmarks cv1 landmarks)
    \<and> painted (ctx st2') = painted (ctx st2) @ overlay thumbsUp (scaledLandmarks cv2 landmarks)
    \<and> map emphasis (overlay thumbsUp (scaledLandmarks cv1 landmarks))
        = map emphasis (overlay thumbsUp (scaledLandmarks cv2 landmarks))
    \<and> map emphasis (overlay thumbsUp (scaledLandmarks cv1 landmarks)) =
        ((if thumbsUp then ''#ffffff'' else ''#22d3ee''), Some (if thumbsUp then 8 else 3),
         (if thumbsUp then 40 else 10), (if thumbsUp then ''#ffffff'' else ''#06b6d4''), [])
        # map (\<lambda>k. ((if thumbsUp \<and> k = 4 then ''#ffffff'' else ''#22d3ee''), None, 0,
                      (if thumbsUp then ''#ffffff'' else ''#06b6d4''),
                      [if thumbsUp \<and> k = 4 then 12 else 4]))
            [0..<length landmarks]"
proof -
  obtain a where a: "thumbsUpActive landmarks = Inr a"
    using processHand_Inr_active [OF assms(1)] by blast
  have "painted (ctx st1') = painted (ctx st1) @ overlay a (scaledLandmarks cv1 landmarks)"
    by (rule processHand_painted [OF assms(1) a])
  moreover have "painted (ctx st2') = painted (ctx st2) @ overlay a (scaledLandmarks cv2 landmarks)"
    by (rule processHand_painted [OF assms(2) a])
  ultimately show ?thesis
    using a by (simp add: emphasis_overlay)
qed

theorem emphasis_ignores_cooldown_witness:
  "\<exists>st1' st2'.
     processHand sampleConstants (sampleRuntime (\<lambda>k. 1 / 2)) 1000 (1280, 720) 0 thumbsUpHand (0, initialState)
       = Inr (1, st1')
   \<and> processHand sampleConstants (sampleRuntime (\<lambda>k. 1 / 2)) 1000 (1280, 720) 0 thumbsUpHand
         (0, initialState\<lparr>lastSpawnTimeRef := [900, 0]\<rparr>)
       = Inr (1, st2')
   \<and> length (bubbles st1') = 1 \<and> length (bubbles st2') = 0
   \<and> painted (ctx st1') = painted (ctx st2')
   \<and> map emphasis (painted (ctx st1')) =
        (''#ffffff'', Some 8, 40, ''#ffffff'', [])
        # map (\<lambda>k. ((if k = 4 then ''#ffffff'' else ''#22d3ee''), None, 0, ''#ffffff'',
                      [if k = 4 then 12 else 4])) [0..<21]"
proof -
  let ?r = "sampleRuntime (\<lambda>k. 1 / 2)"
  let ?s2 = "initialState\<lparr>lastSpawnTimeRef := [900, 0]\<rparr>"
  obtain st1' where h1: "processHand sampleConstants ?r 1000 (1280, 720) 0 thumbsUpHand
      (0, initialState) = Inr (1, st1')" and b1: "length (bubbles st1') = 1"
    by (simp add: processHand_result [OF thumbsUpHand_active] gateOpen_def)
  obtain st2' where h2: "processHand sampleConstants ?r 1000 (1280, 720) 0 thumbsUpHand
      (0, ?s2) = Inr (1, st2')" and b2: "length (bubbles st2') = 0"
    by (simp add: processHand_result [OF thumbsUpHand_active] gateOpen_def)
  from emphasis_ignores_cooldown [OF h1 h2]
  have p: "painted (ctx st1') = painted (ctx st2')"
    and e: "map emphasis (painted (ctx st1')) =
        (''#ffffff'', Some 8, 40, ''#ffffff'', [])
        # map (\<lambda>k. ((if k = 4 then ''#ffffff'' else ''#22d3ee''), None, 0, ''#ffffff'',
                      [if k = 4 then 12 else 4])) [0..<21]"
    by (auto simp add: thumbsUpHand_active)
  show ?thesis
    by (rule exI [of _ st1'], rule exI [of _ st2']) (intro conjI h1 h2 b1 b2 p e)
qed

section \<open>Relations across a frame\<close>

lemma predict_rel:
  assumes refl: "\<And>s. Q s s"
    and trans: "\<And>s1 s2 s3. Q s1 s2 \<Longrightarrow> Q s2 s3 \<Longrightarrow> Q s1 s3"
    and step: "\<And>t cv i lms n s n' s'.
                 processHand cfg rt t cv i lms (n, s) = Inr (n', s') \<Longrightarrow> Q s s'"
    and view: "\<And>s c. Q s (s\<lparr>ctx := c\<rparr>)"
      "\<And>s k r. Q s (s\<lparr>activeHandsCount := k, rafPending := r\<rparr>)"
      "\<And>s r. Q s (s\<lparr>rafPending := r\<rparr>)"
  shows "Q st (snd (predict cfg rt f st))"
proof (cases "ready f \<and> canvas f \<noteq> None")
  case False
  then have "\<not> ready f \<or> canvas f = None" by blast
  then have "predict cfg rt f st = (Inr (), st\<lparr>rafPending := True\<rparr>)"
    using predict_not_ready predict_no_canvas by blast
  then show ?thesis by (simp add: view(3))
next
  case True
  then obtain cv where r: "ready f" and c: "canvas f = Some cv" by auto
  let ?st1 = "st\<lparr>ctx := clearRect (ctx st)\<rparr>"
  let ?r = "forEachHand cfg rt (now f) cv 0 (handsOf f) (0, ?st1)"
  have "Q ?st1 (snd ?r)"
    using forEachHand_rel [of Q cfg rt "now f" cv "(0, ?st1)" 0 "handsOf f"] refl trans step
    by simp
  with view(1) [of st "clearRect (ctx st)"] have loop: "Q st (snd ?r)"
    by (rule trans)
  show ?thesis
  proof (cases "fst ?r")
    case (Inl e)
    then show ?thesis using loop by (simp add: predict_ready [OF r c])
  next
    case (Inr k)
    have "Q st ((snd ?r)\<lparr>activeHandsCount := k, rafPending := True\<rparr>)"
      by (rule trans [OF loop view(2)])
    then show ?thesis using Inr by (simp add: predict_ready [OF r c])
  qed
qed

lemma animationFrame_rel:
  assumes refl: "\<And>s. Q s s"
    and trans: "\<And>s1 s2 s3. Q s1 s2 \<Longrightarrow> Q s2 s3 \<Longrightarrow> Q s1 s3"
    and step: "\<And>t cv i lms n s n' s'.
                 processHand cfg rt t cv i lms (n, s) = Inr (n', s') \<Longrightarrow> Q s s'"
    and view: "\<And>s c. Q s (s\<lparr>ctx := c\<rparr>)"
      "\<And>s k r. Q s (s\<lparr>activeHandsCount := k, rafPending := r\<rparr>)"
      "\<And>s r. Q s (s\<lparr>rafPending := r\<rparr>)"
  shows "Q st (animationFrame cfg rt f st)"
proof (cases "rafPending st")
  case False
  then show ?thesis by (simp add: animationFrame_def refl)
next
  case True
  have "Q (st\<lparr>rafPending := False\<rparr>) (snd (predict cfg rt f (st\<lparr>rafPending := False\<rparr>)))"
    by (rule predict_rel [of Q, OF refl trans step view])
  from trans [OF view(3) this] True show ?thesis
    by (simp add: animationFrame_def)
qed

section \<open>Bubble ids\<close>

lemma processHand_bubbles:
  assumes "processHand cfg rt t cv i lms (n, st) = Inr (n', st')"
  shows "bubbles st' = bubbles st \<or>
         bubbles st' = bubbles st @ [spawned cfg rt (scaledLandmarks cv lms) st]"
  using assms by (elim processHand_InrE) auto

text \<open>
  C4, as stated, fails. An id is the text of a random number and nothing compares it
  with the ids in use. When \<^verbatim>\<open>Math.random\<close> returns \<open>1 / 2\<close> for both draws, two hands
  that spawn in the same frame get the same id \<^verbatim>\<open>"i"\<close>.
\<close>

theorem colliding_ids:
  "\<not> distinct (map id' (bubbles (snd (predict sampleConstants (sampleRuntime (\<lambda>k. 1 / 2))
        (sampleFrame 1000 [thumbsUpHand, thumbsUpHand]) initialState))))
   \<and> map id' (bubbles (snd (predict sampleConstants (sampleRuntime (\<lambda>k. 1 / 2))
        (sampleFrame 1000 [thumbsUpHand, thumbsUpHand]) initialState))) = [''i'', ''i'']"
  by (simp add: predict_ready [of _ "(1280, 720)"] processHand_result [OF thumbsUpHand_active]
        gateOpen_def randomId_half)

text \<open>
  C4, amended. A hand that changes the live list appends exactly one bubble to it, so the
  list is one longer. The id of the new bubble is \<^verbatim>\<open>substr(2, 9)\<close> of the text that the
  engine prints in base 36 for the next random number, whatever the ids in use; the ids
  of the live bubbles are distinct afterwards exactly when they were distinct before and
  the new id is not among them.
\<close>

theorem spawn_adds_one_bubble:
  assumes "processHand cfg rt t cv i landmarks (n, st) = Inr (n', st')"
    and "bubbles st' \<noteq> bubbles st"
  shows "\<exists>b. bubbles st' = bubbles st @ [b]
    \<and> length (bubbles st') = length (bubbles st) + 1
    \<and> id' b = substr (toString36 rt (mathRandom rt (randomCalls st))) 2 9
    \<and> distinct (map id' (bubbles st'))
        = (distinct (map id' (bubbles st)) \<and> id' b \<notin> id' ` set (bubbles st))"
proof -
  from processHand_bubbles [OF assms(1)] assms(2)
  have "bubbles st' = bubbles st @ [spawned cfg rt (scaledLandmarks cv landmarks) st]"
    by simp
  then show ?thesis by auto
qed

theorem spawn_adds_one_bubble_witness:
  "\<exists>st'. processHand sampleConstants (sampleRuntime (\<lambda>k. 1 / 2)) 1000 (1280, 720) 0 thumbsUpHand
       (0, initialState) = Inr (1, st')
     \<and> bubbles st' \<noteq> bubbles initialState
     \<and> length (bubbles st') = 1
     \<and> map id' (bubbles st') = [''i'']
     \<and> distinct (map id' (bubbles st'))"
proof -
  let ?r = "sampleRuntime (\<lambda>k. 1 / 2)"
  obtain st' where h: "processHand sampleConstants ?r 1000 (1280, 720) 0 thumbsUpHand
      (0, initialState) = Inr (1, st')" and b: "bubbles st' \<noteq> bubbles initialState"
    by (simp add: processHand_result [OF thumbsUpHand_active] gateOpen_def)
  from spawn_adds_one_bubble [OF h b]
  have l: "length (bubbles st') = 1" and i: "map id' (bubbles st') = [''i'']"
    and d: "distinct (map id' (bubbles st'))"
    by (auto simp add: randomId_half)
  show ?thesis
    by (rule exI [of _ st']) (intro conjI h b l i d)
qed

section \<open>Expiry\<close>

lemma fold_expire_bubbles:
  "bubbles (fold (\<lambda>d. expire (snd d)) ds s) = filter (\<lambda>b. id' b \<notin> snd ` set ds) (bubbles s)"
proof (induction ds arbitrary: s)
  case Nil
  then show ?case by simp
next
  case (Cons d ds)
  have "bubbles (fold (\<lambda>d. expire (snd d)) (d # ds) s) =
      filter (\<lambda>b. id' b \<notin> snd ` set ds) (bubbles (expire (snd d) s))"
    by (simp add: Cons.IH)
  also have "\<dots> = filter (\<lambda>b. id' b \<notin> snd ` set (d # ds)) (bubbles s)"
    by (auto simp add: expire_def intro: filter_cong)
  finally show ?case .
qed

lemma runTimeouts_bubbles:
  "bubbles (runTimeouts u s) =
     filter (\<lambda>b. id' b \<notin> snd ` {d \<in> set (timeouts s). fst d \<le> u}) (bubbles s)"
  by (simp add: runTimeouts_def fold_expire_bubbles)

lemma expire_absent:
  assumes "j \<notin> id' ` set (bubbles s)"
  shows "expire j s = s"
proof -
  have "filter (\<lambda>b. id' b \<noteq> j) (bubbles s) = bubbles s"
    using assms by (auto intro: filter_True)
  then show ?thesis by (simp add: expire_def)
qed

lemma expire_distinct:
  assumes "distinct (map id' (bubbles s))" and "b \<in> set (bubbles s)"
  shows "set (bubbles (expire (id' b) s)) = set (bubbles s) - {b}"
  using assms by (auto simp add: expire_def distinct_map inj_on_def)

section \<open>Drift and rotation\<close>

lemma animationFrame_appends:
  assumes "\<And>s scaled. P (spawned cfg rt scaled s)"
  shows "\<exists>new. bubbles (animationFrame cfg rt f st) = bubbles st @ new \<and> (\<forall>b \<in> set new. P b)"
proof (rule animationFrame_rel
    [where Q = "\<lambda>s s'. \<exists>new. bubbles s' = bubbles s @ new \<and> (\<forall>b \<in> set new. P b)"])
  fix s :: AppState
  show "\<exists>new. bubbles s = bubbles s @ new \<and> (\<forall>b \<in> set new. P b)"
    by simp
next
  fix s1 s2 s3 :: AppState
  assume "\<exists>new. bubbles s2 = bubbles s1 @ new \<and> (\<forall>b \<in> set new. P b)"
    and "\<exists>new. bubbles s3 = bubbles s2 @ new \<and> (\<forall>b \<in> set new. P b)"
  then obtain new1 new2 where n1: "bubbles s2 = bubbles s1 @ new1" "\<forall>b \<in> set new1. P b"
    and n2: "bubbles s3 = bubbles s2 @ new2" "\<forall>b \<in> set new2. P b"
    by blast
  have "bubbles s3 = bubbles s1 @ (new1 @ new2)" and "\<forall>b \<in> set (new1 @ new2). P b"
    using n1 n2 by auto
  then show "\<exists>new. bubbles s3 = bubbles s1 @ new \<and> (\<forall>b \<in> set new. P b)"
    by blast
next
  fix t cv i lms n n' and s s' :: AppState
  assume "processHand cfg rt t cv i lms (n, s) = Inr (n', s')"
  from processHand_bubbles [OF this] assms
  show "\<exists>new. bubbles s' = bubbles s @ new \<and> (\<forall>b \<in> set new. P b)"
    by auto
qed simp_all

lemma spawned_range:
  assumes "\<forall>k. 0 \<le> mathRandom rt k \<and> mathRandom rt k < 1"
  shows "- 100 \<le> driftX (spawned cfg rt scaled s) \<and> driftX (spawned cfg rt scaled s) < 100
    \<and> - 5 \<le> rotation (spawned cfg rt scaled s) \<and> rotation (spawned cfg rt scaled s) < 5"
proof -
  have "0 \<le> mathRandom rt (randomCalls s + 1)" "mathRandom rt (randomCalls s + 1) < 1"
    "0 \<le> mathRandom rt (randomCalls s + 2)" "mathRandom rt (randomCalls s + 2) < 1"
    using assms by simp_all
  then show ?thesis by simp
qed

lemma hostStep_bubbles:
  assumes "\<forall>k. 0 \<le> mathRandom rt k \<and> mathRandom rt k < 1"
  shows "\<exists>keep new. bubbles (hostStep cfg rt ev st) = filter keep (bubbles st) @ new
     \<and> (\<forall>b \<in> set new. - 100 \<le> driftX b \<and> driftX b < 100 \<and> - 5 \<le> rotation b \<and> rotation b < 5)"
proof (cases ev)
  case (AnimationFrame f)
  let ?P = "\<lambda>b. - 100 \<le> driftX b \<and> driftX b < 100 \<and> - 5 \<le> rotation b \<and> rotation b < 5"
  have "\<And>s scaled. ?P (spawned cfg rt scaled s)"
    by (rule spawned_range [OF assms])
  from animationFrame_appends [of ?P cfg rt f st, OF this]
  obtain new where n: "bubbles (animationFrame cfg rt f st) = bubbles st @ new"
    and r: "\<forall>b \<in> set new. ?P b"
    by blast
  have "bubbles (hostStep cfg rt ev st) = filter (\<lambda>b. True) (bubbles st) @ new"
    using AnimationFrame n by (simp add: hostStep_def)
  with r show ?thesis by blast
next
  case (TimersUpTo u)
  have "bubbles (hostStep cfg rt ev st) =
      filter (\<lambda>b. id' b \<notin> snd ` {d \<in> set (timeouts st). fst d \<le> u}) (bubbles st) @ []"
    using TimersUpTo by (simp add: hostStep_def runTimeouts_bubbles)
  moreover have "\<forall>b \<in> set ([] :: Bubble list). - 100 \<le> driftX b \<and> driftX b < 100
      \<and> - 5 \<le> rotation b \<and> rotation b < 5"
    by simp
  ultimately show ?thesis by blast
qed

lemma run_in_range:
  assumes "\<forall>k. 0 \<le> mathRandom rt k \<and> mathRandom rt k < 1"
    and "\<forall>b \<in> set (bubbles st). - 100 \<le> driftX b \<and> driftX b < 100
            \<and> - 5 \<le> rotation b \<and> rotation b < 5"
  shows "\<forall>b \<in> set (bubbles (fold (hostStep cfg rt) evs st)). - 100 \<le> driftX b \<and> driftX b < 100
            \<and> - 5 \<le> rotation b \<and> rotation b < 5"
  using assms(2)
proof (induction evs arbitrary: st)
  case Nil
  then show ?case by simp
next
  case (Cons ev evs)
  from hostStep_bubbles [OF assms(1), of cfg ev st]
  obtain keep new where k: "bubbles (hostStep cfg rt ev st) = filter keep (bubbles st) @ new"
    and n: "\<forall>b \<in> set new. - 100 \<le> driftX b \<and> driftX b < 100 \<and> - 5 \<le> rotation b \<and> rotation b < 5"
    by blast
  have "\<forall>b \<in> set (bubbles (hostStep cfg rt ev st)). - 100 \<le> driftX b \<and> driftX b < 100
            \<and> - 5 \<le> rotation b \<and> rotation b < 5"
    unfolding k using n Cons.prems by auto
  from Cons.IH [OF this] show ?case by simp
qed

text \<open>
  C10, as stated, fails. \<^verbatim>\<open>Math.random\<close> may return \<open>0\<close>; then the drift is \<open>-100\<close> and the
  rotation \<open>-5\<close>, the lower ends that the open intervals exclude.
\<close>

theorem drift_reaches_lower_bound:
  "map driftX (bubbles (snd (predict sampleConstants (sampleRuntime (\<lambda>k. 0)) (sampleFrame 1000 [thumbsUpHand])
       initialState))) = [- 100]
   \<and> map rotation (bubbles (snd (predict sampleConstants (sampleRuntime (\<lambda>k. 0)) (sampleFrame 1000 [thumbsUpHand])
       initialState))) = [- 5]
   \<and> \<not> (\<forall>b \<in> set (bubbles (snd (predict sampleConstants (sampleRuntime (\<lambda>k. 0))
             (sampleFrame 1000 [thumbsUpHand]) initialState))).
           - 100 < driftX b \<and> driftX b < 100 \<and> - 5 < rotation b \<and> rotation b < 5)"
  by (simp add: predict_ready [of _ "(1280, 720)"] processHand_result [OF thumbsUpHand_active]
        gateOpen_def)

text \<open>
  C10, amended. With random numbers in \<open>[0, 1)\<close>, every bubble a frame adds has its drift
  in \<open>[-100, 100)\<close> and its rotation in \<open>[-5, 5)\<close>: the lower ends are included, the upper
  ends are not. After an animation frame or a run of timers the live list is a selection
  of the bubbles that were there, unchanged, followed by the new ones; so along every
  run all live bubbles stay in these ranges once they are.
\<close>

theorem drift_rotation_ranges:
  assumes "\<forall>k. 0 \<le> mathRandom rt k \<and> mathRandom rt k < 1"
  shows "(\<exists>keep new. bubbles (hostStep cfg rt ev st) = filter keep (bubbles st) @ new
            \<and> (\<forall>b \<in> set new. - 100 \<le> driftX b \<and> driftX b < 100
                  \<and> - 5 \<le> rotation b \<and> rotation b < 5))
    \<and> ((\<forall>b \<in> set (bubbles st). - 100 \<le> driftX b \<and> driftX b < 100
              \<and> - 5 \<le> rotation b \<and> rotation b < 5)
        \<longrightarrow> (\<forall>b \<in> set (bubbles (fold (hostStep cfg rt) evs st)).
               - 100 \<le> driftX b \<and> driftX b < 100 \<and> - 5 \<le> rotation b \<and> rotation b < 5))"
  using hostStep_bubbles [OF assms, of cfg ev st] run_in_range [OF assms, of st cfg evs]
  by blast

theorem drift_rotation_ranges_witness:
  "(\<forall>k. 0 \<le> mathRandom (sampleRuntime (\<lambda>k. if k = 1 then 0 else 3 / 4)) k
        \<and> mathRandom (sampleRuntime (\<lambda>k. if k = 1 then 0 else 3 / 4)) k < 1)
   \<and> list_all (\<lambda>b. - 100 \<le> driftX b \<and> driftX b < 100 \<and> - 5 \<le> rotation b \<and> rotation b < 5)
        (bubbles (fold (hostStep sampleConstants (sampleRuntime (\<lambda>k. if k = 1 then 0 else 3 / 4)))
           [AnimationFrame (sampleFrame 1000 [thumbsUpHand]), TimersUpTo 2000] initialState))
   \<and> map driftX (bubbles (fold (hostStep sampleConstants (sampleRuntime (\<lambda>k. if k = 1 then 0 else 3 / 4)))
           [AnimationFrame (sampleFrame 1000 [thumbsUpHand]), TimersUpTo 2000] initialState))
       = [- 100]
   \<and> map rotation (bubbles (fold (hostStep sampleConstants (sampleRuntime (\<lambda>k. if k = 1 then 0 else 3 / 4)))
           [AnimationFrame (sampleFrame 1000 [thumbsUpHand]), TimersUpTo 2000] initialState))
       = [5 / 2]"
proof -
  let ?r = "sampleRuntime (\<lambda>k. if k = 1 then 0 else 3 / 4)"
  let ?evs = "[AnimationFrame (sampleFrame 1000 [thumbsUpHand]), TimersUpTo 2000]"
  have r: "\<forall>k. 0 \<le> mathRandom ?r k \<and> mathRandom ?r k < 1" by simp
  have "\<forall>b \<in> set (bubbles (fold (hostStep sampleConstants ?r) ?evs initialState)).
      - 100 \<le> driftX b \<and> driftX b < 100 \<and> - 5 \<le> rotation b \<and> rotation b < 5"
    using drift_rotation_ranges [OF r, of sampleConstants "TimersUpTo 0" initialState ?evs]
    by simp
  then have a: "list_all (\<lambda>b. - 100 \<le> driftX b \<and> driftX b < 100 \<and> - 5 \<le> rotation b \<and> rotation b < 5)
        (bubbles (fold (hostStep sampleConstants ?r) ?evs initialState))"
    by (simp only: list_all_iff)
  have b: "bubbles (fold (hostStep sampleConstants ?r) ?evs initialState) =
      [spawned sampleConstants ?r (scaledLandmarks (1280, 720) thumbsUpHand) initialState]"
    by (auto simp add: hostStep_def animationFrame_def predict_ready [of _ "(1280, 720)"]
          processHand_result [OF thumbsUpHand_active] gateOpen_def runTimeouts_bubbles)
  have c: "map driftX (bubbles (fold (hostStep sampleConstants ?r) ?evs initialState)) = [- 100]"
    and d: "map rotation (bubbles (fold (hostStep sampleConstants ?r) ?evs initialState)) = [5 / 2]"
    unfolding b by simp_all
  show ?thesis by (intro conjI r a c d)
qed

section \<open>Bubbles that share an id\<close>

lemma held_frame_state:
  assumes "rafPending st" and "gateOpen cfg t 0 st"
  shows "animationFrame cfg rt (sampleFrame t [thumbsUpHand]) st =
    (afterSpawn cfg t 0 (spawned cfg rt (scaledLandmarks (1280, 720) thumbsUpHand) st)
       (st\<lparr>ctx := handCtx True (scaledLandmarks (1280, 720) thumbsUpHand) (clearRect (ctx st))\<rparr>))
      \<lparr>activeHandsCount := 1, rafPending := True\<rparr>"
  using assms
  by (simp add: animationFrame_def predict_ready [of _ "(1280, 720)"]
        processHand_result [OF thumbsUpHand_active] afterSpawn_def)

text \<open>
  C5, as stated, fails. The expiry callback removes every live bubble that carries its id.
  Two bubbles spawned at 1000 and 2000 with the same id \<^verbatim>\<open>"i"\<close> and a lifetime of 8000:
  the timeout of the first, due at 9000, removes both, so at 9500 the second is gone,
  500 before its own lifetime ends.
\<close>

theorem colliding_id_expires_early:
  "map id' (bubbles (animationFrame sampleConstants (sampleRuntime (\<lambda>k. 1 / 2)) (sampleFrame 2000 [thumbsUpHand])
       (animationFrame sampleConstants (sampleRuntime (\<lambda>k. 1 / 2)) (sampleFrame 1000 [thumbsUpHand])
          initialState))) = [''i'', ''i'']
   \<and> timeouts (animationFrame sampleConstants (sampleRuntime (\<lambda>k. 1 / 2)) (sampleFrame 2000 [thumbsUpHand])
       (animationFrame sampleConstants (sampleRuntime (\<lambda>k. 1 / 2)) (sampleFrame 1000 [thumbsUpHand])
          initialState)) = [(9000, ''i''), (10000, ''i'')]
   \<and> (9500 :: real) < 2000 + BUBBLE_LIFETIME sampleConstants
   \<and> bubbles (runTimeouts 9500
        (animationFrame sampleConstants (sampleRuntime (\<lambda>k. 1 / 2)) (sampleFrame 2000 [thumbsUpHand])
          (animationFrame sampleConstants (sampleRuntime (\<lambda>k. 1 / 2)) (sampleFrame 1000 [thumbsUpHand])
             initialState))) = []"
proof -
  let ?r = "sampleRuntime (\<lambda>k. 1 / 2)"
  let ?s1 = "animationFrame sampleConstants ?r (sampleFrame 1000 [thumbsUpHand]) initialState"
  let ?s2 = "animationFrame sampleConstants ?r (sampleFrame 2000 [thumbsUpHand]) ?s1"
  have g1: "gateOpen sampleConstants 1000 0 initialState"
    by (simp add: gateOpen_def)
  have s1: "bubbles ?s1 = [spawned sampleConstants ?r (scaledLandmarks (1280, 720) thumbsUpHand) initialState]"
    "timeouts ?s1 = [(9000, ''i'')]" "rafPending ?s1" "lastSpawnTimeRef ?s1 = [1000, 0]"
    "randomCalls ?s1 = 3"
    by (simp_all add: held_frame_state [OF _ g1] randomId_half)
  have g2: "gateOpen sampleConstants 2000 0 ?s1"
    by (simp add: gateOpen_def s1(4))
  have s2: "map id' (bubbles ?s2) = [''i'', ''i'']" "timeouts ?s2 = [(9000, ''i''), (10000, ''i'')]"
    by (simp_all add: held_frame_state [OF s1(3) g2] s1 randomId_half)
  have "bubbles (runTimeouts 9500 ?s2) = filter (\<lambda>b. id' b \<notin> snd ` {d \<in> set (timeouts ?s2). fst d \<le> 9500}) (bubbles ?s2)"
    by (rule runTimeouts_bubbles)
  also have "snd ` {d \<in> set (timeouts ?s2). fst d \<le> 9500} = {''i''}"
    unfolding s2(2) by force
  also have "filter (\<lambda>b. id' b \<notin> {''i''}) (bubbles ?s2) = []"
    using s2(1) by (auto simp add: filter_empty_conv)
  finally have "bubbles (runTimeouts 9500 ?s2) = []" .
  with s2 show ?thesis by simp
qed

lemma runTimeouts_timeouts:
  "timeouts (runTimeouts u s) = filter (\<lambda>d. \<not> fst d \<le> u) (timeouts s)"
  by (simp add: runTimeouts_def)

section \<open>Round-robin quotes\<close>

lemma roundRobin_append:
  assumes "0 < length quotes"
  shows "roundRobin quotes q a @ roundRobin quotes ((q + a) mod length quotes) b
         = roundRobin quotes q (a + b)"
proof -
  let ?N = "length quotes"
  have "[a..<a + b] = map (\<lambda>k. k + a) [0..<b]"
    using map_add_upt [of a b] by (simp add: add.commute)
  then have "map (\<lambda>k. Some (quotes ! ((q + k) mod ?N))) [a..<a + b]
      = map (\<lambda>k. Some (quotes ! ((q + (k + a)) mod ?N))) [0..<b]"
    by (simp add: comp_def)
  also have "\<dots> = map (\<lambda>k. Some (quotes ! (((q + a) mod ?N + k) mod ?N))) [0..<b]"
  proof -
    have eq: "\<And>k. (q + (k + a)) mod ?N = ((q + a) mod ?N + k) mod ?N"
    proof -
      fix k
      have "((q + a) mod ?N + k) mod ?N = (q + a + k) mod ?N"
        by (rule mod_add_left_eq)
      moreover have "q + (k + a) = q + a + k" by simp
      ultimately show "(q + (k + a)) mod ?N = ((q + a) mod ?N + k) mod ?N"
        by (simp only:)
    qed
    show ?thesis by (simp only: eq)
  qed
  finally have second: "roundRobin quotes ((q + a) mod ?N) b
      = map (\<lambda>k. Some (quotes ! ((q + k) mod ?N))) [a..<a + b]"
    by (simp add: roundRobin_def)
  have split: "[0..<a + b] = [0..<a] @ [a..<a + b]"
    by (rule upt_add_eq_append) simp
  have "roundRobin quotes q (a + b)
      = map (\<lambda>k. Some (quotes ! ((q + k) mod ?N))) [0..<a]
        @ map (\<lambda>k. Some (quotes ! ((q + k) mod ?N))) [a..<a + b]"
    unfolding roundRobin_def split by (rule map_append)
  also have "\<dots> = roundRobin quotes q a @ roundRobin quotes ((q + a) mod ?N) b"
    unfolding second by (simp only: roundRobin_def)
  finally show ?thesis by (rule sym)
qed

lemma roundRobin_0 [simp]: "roundRobin quotes q 0 = []"
  by (simp add: roundRobin_def)

lemma roundRobin_1: "q < length quotes \<Longrightarrow> roundRobin quotes q (Suc 0) = [Some (quotes ! q)]"
  by (simp add: roundRobin_def)

lemma animationFrame_round_robin:
  assumes pos: "0 < length (SARCASTIC_QUOTES cfg)"
  shows "\<exists>new. bubbles (animationFrame cfg rt f st) = bubbles st @ new \<and>
    (\<forall>q. quoteIndexRef st = Some q \<and> q < length (SARCASTIC_QUOTES cfg) \<longrightarrow>
       map text' new = roundRobin (SARCASTIC_QUOTES cfg) q (length new) \<and>
       quoteIndexRef (animationFrame cfg rt f st)
         = Some ((q + length new) mod length (SARCASTIC_QUOTES cfg)))"
proof (rule animationFrame_rel
    [where Q = "\<lambda>s s'. \<exists>new. bubbles s' = bubbles s @ new \<and>
      (\<forall>q. quoteIndexRef s = Some q \<and> q < length (SARCASTIC_QUOTES cfg) \<longrightarrow>
         map text' new = roundRobin (SARCASTIC_QUOTES cfg) q (length new) \<and>
         quoteIndexRef s' = Some ((q + length new) mod length (SARCASTIC_QUOTES cfg)))"])
  let ?N = "length (SARCASTIC_QUOTES cfg)"
  let ?qs = "SARCASTIC_QUOTES cfg"
  {
    fix s :: AppState
    have "bubbles s = bubbles s @ [] \<and>
      (\<forall>q. quoteIndexRef s = Some q \<and> q < ?N \<longrightarrow>
         map text' [] = roundRobin ?qs q (length ([] :: Bubble list)) \<and>
         quoteIndexRef s = Some ((q + length ([] :: Bubble list)) mod ?N))"
      by simp
    then show "\<exists>new. bubbles s = bubbles s @ new \<and>
      (\<forall>q. quoteIndexRef s = Some q \<and> q < ?N \<longrightarrow>
         map text' new = roundRobin ?qs q (length new) \<and>
         quoteIndexRef s = Some ((q + length new) mod ?N))"
      by (rule exI)
  next
    fix s1 s2 s3 :: AppState
    assume "\<exists>new. bubbles s2 = bubbles s1 @ new \<and>
      (\<forall>q. quoteIndexRef s1 = Some q \<and> q < ?N \<longrightarrow>
         map text' new = roundRobin ?qs q (length new) \<and>
         quoteIndexRef s2 = Some ((q + length new) mod ?N))"
    then obtain new1 where b1: "bubbles s2 = bubbles s1 @ new1"
      and r1: "\<And>q. quoteIndexRef s1 = Some q \<Longrightarrow> q < ?N \<Longrightarrow>
         map text' new1 = roundRobin ?qs q (length new1) \<and>
         quoteIndexRef s2 = Some ((q + length new1) mod ?N)"
      by blast
    assume "\<exists>new. bubbles s3 = bubbles s2 @ new \<and>
      (\<forall>q. quoteIndexRef s2 = Some q \<and> q < ?N \<longrightarrow>
         map text' new = roundRobin ?qs q (length new) \<and>
         quoteIndexRef s3 = Some ((q + length new) mod ?N))"
    then obtain new2 where b2: "bubbles s3 = bubbles s2 @ new2"
      and r2: "\<And>q. quoteIndexRef s2 = Some q \<Longrightarrow> q < ?N \<Longrightarrow>
         map text' new2 = roundRobin ?qs q (length new2) \<and>
         quoteIndexRef s3 = Some ((q + length new2) mod ?N)"
      by blast
    have "bubbles s3 = bubbles s1 @ (new1 @ new2)"
      by (simp add: b1 b2)
    moreover have "\<forall>q. quoteIndexRef s1 = Some q \<and> q < ?N \<longrightarrow>
         map text' (new1 @ new2) = roundRobin ?qs q (length (new1 @ new2)) \<and>
         quoteIndexRef s3 = Some ((q + length (new1 @ new2)) mod ?N)"
    proof (intro allI impI)
      fix q
      assume "quoteIndexRef s1 = Some q \<and> q < ?N"
      then have q: "quoteIndexRef s1 = Some q" "q < ?N" by simp_all
      from r1 [OF q] have t1: "map text' new1 = roundRobin ?qs q (length new1)"
        and i2: "quoteIndexRef s2 = Some ((q + length new1) mod ?N)" by simp_all
      have "(q + length new1) mod ?N < ?N" using pos by simp
      from r2 [OF i2 this] have t2: "map text' new2 =
          roundRobin ?qs ((q + length new1) mod ?N) (length new2)"
        and i3: "quoteIndexRef s3 = Some (((q + length new1) mod ?N + length new2) mod ?N)"
        by simp_all
      have "map text' (new1 @ new2) = roundRobin ?qs q (length (new1 @ new2))"
        using roundRobin_append [OF pos, of q "length new1" "length new2"]
        by (simp add: t1 t2)
      moreover have "quoteIndexRef s3 = Some ((q + length (new1 @ new2)) mod ?N)"
        by (simp add: i3 mod_add_left_eq add.assoc)
      ultimately show "map text' (new1 @ new2) = roundRobin ?qs q (length (new1 @ new2)) \<and>
         quoteIndexRef s3 = Some ((q + length (new1 @ new2)) mod ?N)" ..
    qed
    ultimately show "\<exists>new. bubbles s3 = bubbles s1 @ new \<and>
      (\<forall>q. quoteIndexRef s1 = Some q \<and> q < ?N \<longrightarrow>
         map text' new = roundRobin ?qs q (length new) \<and>
         quoteIndexRef s3 = Some ((q + length new) mod ?N))"
      by blast
  next
    fix t cv i lms n n' and s s' :: AppState
    assume "processHand cfg rt t cv i lms (n, s) = Inr (n', s')"
    then show "\<exists>new. bubbles s' = bubbles s @ new \<and>
      (\<forall>q. quoteIndexRef s = Some q \<and> q < ?N \<longrightarrow>
         map text' new = roundRobin ?qs q (length new) \<and>
         quoteIndexRef s' = Some ((q + length new) mod ?N))"
    proof (rule processHand_InrE)
      fix a
      assume s': "s' = (if a \<and> gateOpen cfg t i s
            then afterSpawn cfg t i (spawned cfg rt (scaledLandmarks cv lms) s)
                   (s\<lparr>ctx := handCtx a (scaledLandmarks cv lms) (ctx s)\<rparr>)
            else s\<lparr>ctx := handCtx a (scaledLandmarks cv lms) (ctx s)\<rparr>)"
      show ?thesis
      proof (cases "a \<and> gateOpen cfg t i s")
        case True
        have "bubbles s' = bubbles s @ [spawned cfg rt (scaledLandmarks cv lms) s] \<and>
          (\<forall>q. quoteIndexRef s = Some q \<and> q < ?N \<longrightarrow>
             map text' [spawned cfg rt (scaledLandmarks cv lms) s]
               = roundRobin ?qs q (length [spawned cfg rt (scaledLandmarks cv lms) s]) \<and>
             quoteIndexRef s' =
               Some ((q + length [spawned cfg rt (scaledLandmarks cv lms) s]) mod ?N))"
          using True pos by (auto simp add: s' roundRobin_1)
        then show ?thesis by (rule exI)
      next
        case False
        have "bubbles s' = bubbles s @ [] \<and>
          (\<forall>q. quoteIndexRef s = Some q \<and> q < ?N \<longrightarrow>
             map text' [] = roundRobin ?qs q (length ([] :: Bubble list)) \<and>
             quoteIndexRef s' = Some ((q + length ([] :: Bubble list)) mod ?N))"
          using False by (auto simp add: s')
        then show ?thesis by (rule exI)
      qed
    qed
  }
qed simp_all

lemma fold_expire_quoteIndexRef:
  "quoteIndexRef (fold (\<lambda>d. expire (snd d)) ds s) = quoteIndexRef s"
  by (induction ds arbitrary: s) (simp_all add: expire_def)

lemma runTimeouts_quoteIndexRef [simp]:
  "quoteIndexRef (runTimeouts u s) = quoteIndexRef s"
  by (simp add: runTimeouts_def fold_expire_quoteIndexRef)

lemma hostStep_round_robin:
  assumes pos: "0 < length (SARCASTIC_QUOTES cfg)"
    and q: "quoteIndexRef st = Some q" "q < length (SARCASTIC_QUOTES cfg)"
  shows "map text' (spawnedBy cfg rt [ev] st)
           = roundRobin (SARCASTIC_QUOTES cfg) q (length (spawnedBy cfg rt [ev] st))
    \<and> quoteIndexRef (hostStep cfg rt ev st)
           = Some ((q + length (spawnedBy cfg rt [ev] st)) mod length (SARCASTIC_QUOTES cfg))"
proof (cases ev)
  case (AnimationFrame f)
  from animationFrame_round_robin [OF pos, of rt f st] q
  obtain new where "bubbles (animationFrame cfg rt f st) = bubbles st @ new"
    and "map text' new = roundRobin (SARCASTIC_QUOTES cfg) q (length new)"
    and "quoteIndexRef (animationFrame cfg rt f st)
         = Some ((q + length new) mod length (SARCASTIC_QUOTES cfg))"
    by blast
  then show ?thesis using AnimationFrame by (simp add: hostStep_def)
next
  case (TimersUpTo u)
  then show ?thesis using q by (simp add: hostStep_def)
qed

lemma spawnedBy_Cons:
  "spawnedBy cfg rt (ev # evs) st
     = spawnedBy cfg rt [ev] st @ spawnedBy cfg rt evs (hostStep cfg rt ev st)"
  by simp

lemma run_round_robin:
  assumes pos: "0 < length (SARCASTIC_QUOTES cfg)"
  shows "quoteIndexRef st = Some q \<Longrightarrow> q < length (SARCASTIC_QUOTES cfg) \<Longrightarrow>
    map text' (spawnedBy cfg rt evs st)
      = roundRobin (SARCASTIC_QUOTES cfg) q (length (spawnedBy cfg rt evs st))
    \<and> quoteIndexRef (fold (hostStep cfg rt) evs st)
      = Some ((q + length (spawnedBy cfg rt evs st)) mod length (SARCASTIC_QUOTES cfg))"
proof (induction evs arbitrary: st q)
  case Nil
  then show ?case by simp
next
  case (Cons ev evs)
  let ?N = "length (SARCASTIC_QUOTES cfg)"
  let ?one = "spawnedBy cfg rt [ev] st"
  let ?st1 = "hostStep cfg rt ev st"
  let ?rest = "spawnedBy cfg rt evs ?st1"
  from hostStep_round_robin [OF pos Cons.prems, of rt ev]
  have t1: "map text' ?one = roundRobin (SARCASTIC_QUOTES cfg) q (length ?one)"
    and i1: "quoteIndexRef ?st1 = Some ((q + length ?one) mod ?N)"
    by simp_all
  have "(q + length ?one) mod ?N < ?N" using pos by simp
  from Cons.IH [OF i1 this]
  have t2: "map text' ?rest = roundRobin (SARCASTIC_QUOTES cfg) ((q + length ?one) mod ?N) (length ?rest)"
    and i2: "quoteIndexRef (fold (hostStep cfg rt) evs ?st1)
        = Some (((q + length ?one) mod ?N + length ?rest) mod ?N)"
    by simp_all
  have all: "spawnedBy cfg rt (ev # evs) st = ?one @ ?rest"
    by (rule spawnedBy_Cons)
  have "map text' (?one @ ?rest) = roundRobin (SARCASTIC_QUOTES cfg) q (length (?one @ ?rest))"
    using roundRobin_append [OF pos, of q "length ?one" "length ?rest"]
    by (simp only: map_append t1 t2 length_append)
  moreover have "quoteIndexRef (fold (hostStep cfg rt) (ev # evs) st)
      = Some ((q + length (?one @ ?rest)) mod ?N)"
    by (simp add: i2 mod_add_left_eq add.assoc)
  ultimately show ?case
    by (simp only: all) 
qed

lemma roundRobin_length [simp]: "length (roundRobin quotes q n) = n"
  by (simp add: roundRobin_def)

lemma roundRobin_nth:
  "k < n \<Longrightarrow> roundRobin quotes q n ! k = Some (quotes ! ((q + k) mod length quotes))"
  by (simp add: roundRobin_def)

lemma roundRobin_window:
  assumes "j + length quotes \<le> n"
  shows "take (length quotes) (drop j (roundRobin quotes q n)) = map Some (rotate (q + j) quotes)"
proof (rule nth_equalityI)
  show "length (take (length quotes) (drop j (roundRobin quotes q n)))
      = length (map Some (rotate (q + j) quotes))"
    using assms by simp
next
  fix k
  assume "k < length (take (length quotes) (drop j (roundRobin quotes q n)))"
  then have k: "k < length quotes" by simp
  then have "j + k < n" using assms by simp
  then have "take (length quotes) (drop j (roundRobin quotes q n)) ! k
      = Some (quotes ! ((q + (j + k)) mod length quotes))"
    using k by (simp add: roundRobin_nth)
  also have "\<dots> = map Some (rotate (q + j) quotes) ! k"
    using k by (simp add: nth_rotate add.assoc)
  finally show "take (length quotes) (drop j (roundRobin quotes q n)) ! k
      = map Some (rotate (q + j) quotes) ! k" .
qed

lemma roundRobin_period:
  assumes "0 < length quotes" and "j + length quotes < n"
  shows "roundRobin quotes q n ! (j + length quotes) = roundRobin quotes q n ! j"
proof -
  have "j < n" using assms(2) by simp
  moreover have "(q + (j + length quotes)) mod length quotes = (q + j) mod length quotes"
    by (simp add: add.assoc [symmetric])
  ultimately show ?thesis using assms(2) by (simp add: roundRobin_nth)
qed

text \<open>
  C6. Let the quote list be non-empty and the quote index be \<open>q\<close>, within the list. Along
  every run of animation frames and timers, whatever the hands that spawn, the texts of
  the spawned bubbles, in the order of spawning, are the quotes at \<open>q\<close>, \<open>q + 1\<close>, ... taken
  cyclically, and the index has advanced by one per spawn. So any \<open>N\<close> consecutive spawns,
  \<open>N\<close> the length of the list, use every quote once, in list order from where they
  start (from the first quote when \<open>q = 0\<close>, as in the initial state), and the spawn
  after them takes the quote that the first of them took.
\<close>

theorem quotes_round_robin:
  assumes "SARCASTIC_QUOTES cfg \<noteq> []"
    and "quoteIndexRef st = Some q" and "q < length (SARCASTIC_QUOTES cfg)"
  shows "map text' (spawnedBy cfg rt evs st)
           = roundRobin (SARCASTIC_QUOTES cfg) q (length (spawnedBy cfg rt evs st))
    \<and> quoteIndexRef (fold (hostStep cfg rt) evs st)
           = Some ((q + length (spawnedBy cfg rt evs st)) mod length (SARCASTIC_QUOTES cfg))
    \<and> (\<forall>j. j + length (SARCASTIC_QUOTES cfg) \<le> length (spawnedBy cfg rt evs st) \<longrightarrow>
          take (length (SARCASTIC_QUOTES cfg)) (drop j (map text' (spawnedBy cfg rt evs st)))
            = map Some (rotate (q + j) (SARCASTIC_QUOTES cfg)))
    \<and> (\<forall>j. j + length (SARCASTIC_QUOTES cfg) < length (spawnedBy cfg rt evs st) \<longrightarrow>
          text' (spawnedBy cfg rt evs st ! (j + length (SARCASTIC_QUOTES cfg)))
            = text' (spawnedBy cfg rt evs st ! j))"
proof -
  let ?qs = "SARCASTIC_QUOTES cfg"
  let ?S = "spawnedBy cfg rt evs st"
  have pos: "0 < length ?qs" using assms(1) by simp
  from run_round_robin [OF pos assms(2,3), of rt evs]
  have texts: "map text' ?S = roundRobin ?qs q (length ?S)"
    and index: "quoteIndexRef (fold (hostStep cfg rt) evs st) = Some ((q + length ?S) mod length ?qs)"
    by simp_all
  have window: "\<forall>j. j + length ?qs \<le> length ?S \<longrightarrow>
      take (length ?qs) (drop j (map text' ?S)) = map Some (rotate (q + j) ?qs)"
    unfolding texts using roundRobin_window by blast
  have period: "\<forall>j. j + length ?qs < length ?S \<longrightarrow>
      text' (?S ! (j + length ?qs)) = text' (?S ! j)"
  proof (intro allI impI)
    fix j
    assume j: "j + length ?qs < length ?S"
    then have "map text' ?S ! (j + length ?qs) = map text' ?S ! j"
      unfolding texts by (rule roundRobin_period [OF pos])
    then show "text' (?S ! (j + length ?qs)) = text' (?S ! j)"
      using j by simp
  qed
  from texts index window period show ?thesis by (intro conjI)
qed

lemma two_hands_frame:
  assumes "rafPending st" and "gateOpen cfg t 0 st" and "gateOpen cfg t 1 st"
  shows "length (bubbles (animationFrame cfg rt (sampleFrame t [thumbsUpHand, thumbsUpHand]) st))
           = length (bubbles st) + 2"
    and "lastSpawnTimeRef (animationFrame cfg rt (sampleFrame t [thumbsUpHand, thumbsUpHand]) st)
           = (lastSpawnTimeRef st)[0 := t, 1 := t]"
    and "rafPending (animationFrame cfg rt (sampleFrame t [thumbsUpHand, thumbsUpHand]) st)"
proof -
  have g1: "gateOpen cfg t (Suc 0) (afterSpawn cfg t 0 b s) = gateOpen cfg t 1 s" for b s
    by (simp add: gateOpen_def nth_opt_def)
  show "length (bubbles (animationFrame cfg rt (sampleFrame t [thumbsUpHand, thumbsUpHand]) st))
           = length (bubbles st) + 2"
    and "lastSpawnTimeRef (animationFrame cfg rt (sampleFrame t [thumbsUpHand, thumbsUpHand]) st)
           = (lastSpawnTimeRef st)[0 := t, 1 := t]"
    and "rafPending (animationFrame cfg rt (sampleFrame t [thumbsUpHand, thumbsUpHand]) st)"
    using assms
    by (simp_all add: animationFrame_def predict_ready [of _ "(1280, 720)"]
          processHand_result [OF thumbsUpHand_active] g1)
qed

theorem quotes_round_robin_witness:
  "SARCASTIC_QUOTES sampleConstants \<noteq> []
   \<and> quoteIndexRef initialState = Some 0
   \<and> 0 < length (SARCASTIC_QUOTES sampleConstants)
   \<and> map text' (spawnedBy sampleConstants (sampleRuntime (\<lambda>k. 1 / 2))
        [AnimationFrame (sampleFrame 1000 [thumbsUpHand, thumbsUpHand]),
         AnimationFrame (sampleFrame 2000 [thumbsUpHand, thumbsUpHand])] initialState)
       = [Some ''first'', Some ''second'', Some ''third'', Some ''first'']
   \<and> quoteIndexRef (fold (hostStep sampleConstants (sampleRuntime (\<lambda>k. 1 / 2)))
        [AnimationFrame (sampleFrame 1000 [thumbsUpHand, thumbsUpHand]),
         AnimationFrame (sampleFrame 2000 [thumbsUpHand, thumbsUpHand])] initialState)
       = Some 1"
proof -
  let ?r = "sampleRuntime (\<lambda>k. 1 / 2)"
  let ?f1 = "sampleFrame 1000 [thumbsUpHand, thumbsUpHand]"
  let ?f2 = "sampleFrame 2000 [thumbsUpHand, thumbsUpHand]"
  let ?s1 = "animationFrame sampleConstants ?r ?f1 initialState"
  let ?evs = "[AnimationFrame ?f1, AnimationFrame ?f2]"
  have a: "SARCASTIC_QUOTES sampleConstants \<noteq> []" and b: "quoteIndexRef initialState = Some 0"
    and c: "0 < length (SARCASTIC_QUOTES sampleConstants)"
    by simp_all
  have g: "gateOpen sampleConstants 1000 0 initialState" "gateOpen sampleConstants 1000 1 initialState"
    by (simp_all add: gateOpen_def)
  note s1 = two_hands_frame [OF _ g, of ?r, simplified]
  have g': "gateOpen sampleConstants 2000 0 ?s1" "gateOpen sampleConstants 2000 1 ?s1"
    by (simp_all add: gateOpen_def s1(2))
  note s2 = two_hands_frame [OF s1(3) g', of ?r]
  have len: "length (spawnedBy sampleConstants ?r ?evs initialState) = 4"
    by (simp add: hostStep_def s1(1) s2(1))
  from quotes_round_robin [OF a b c, of ?r ?evs]
  have "map text' (spawnedBy sampleConstants ?r ?evs initialState)
      = roundRobin (SARCASTIC_QUOTES sampleConstants) 0 4"
    and "quoteIndexRef (fold (hostStep sampleConstants ?r) ?evs initialState) = Some (4 mod 3)"
    by (simp_all only: len sampleConstants_simps list.size add_0 One_nat_def)
       (simp_all add: len)
  then have d: "map text' (spawnedBy sampleConstants ?r ?evs initialState)
       = [Some ''first'', Some ''second'', Some ''third'', Some ''first'']"
    and e: "quoteIndexRef (fold (hostStep sampleConstants ?r) ?evs initialState) = Some 1"
    by (simp_all add: roundRobin_def upt_rec)
  show ?thesis by (intro conjI a b c d e)
qed

section \<open>Rounding to doubles\<close>

lemma roundHalfEven_bounds: "\<lfloor>m\<rfloor> \<le> roundHalfEven m \<and> roundHalfEven m \<le> \<lfloor>m\<rfloor> + 1"
  by (simp add: roundHalfEven_def)

lemma roundHalfEven_of_int [simp]: "roundHalfEven (of_int k) = k"
  by (simp add: roundHalfEven_def)

lemma roundHalfEven_mono:
  assumes "a \<le> b"
  shows "roundHalfEven a \<le> roundHalfEven b"
proof (cases "\<lfloor>a\<rfloor> = \<lfloor>b\<rfloor>")
  case False
  then have "\<lfloor>a\<rfloor> < \<lfloor>b\<rfloor>" using floor_mono [OF assms] by simp
  then have "\<lfloor>a\<rfloor> + 1 \<le> \<lfloor>b\<rfloor>" by simp
  with roundHalfEven_bounds [of a] roundHalfEven_bounds [of b] show ?thesis by linarith
next
  case True
  then have "a - of_int \<lfloor>a\<rfloor> \<le> b - of_int \<lfloor>b\<rfloor>" using assms by simp
  then show ?thesis using True by (auto simp add: roundHalfEven_def)
qed

lemma ulp_pos [simp]: "0 < ulp v"
  by (simp add: ulp_def)

lemma binade_bounds:
  assumes "0 < v"
  shows "2 powr of_int \<lfloor>log 2 v\<rfloor> \<le> v" and "v < 2 powr (of_int \<lfloor>log 2 v\<rfloor> + 1)"
  using floor_log_eq_powr_iff [of v 2 "\<lfloor>log 2 v\<rfloor>"] assms by simp_all

lemma scaled_mantissa:
  assumes "0 < v"
  shows "2 ^ 52 \<le> v / ulp v" and "v / ulp v < 2 ^ 53"
proof -
  let ?e = "of_int \<lfloor>log 2 v\<rfloor> :: real"
  have u: "ulp v = 2 powr (?e - 52)" using assms by (simp add: ulp_def)
  have a: "2 powr ?e = 2 ^ 52 * ulp v"
    unfolding u by (simp add: powr_diff)
  have b: "2 powr (?e + 1) = 2 ^ 53 * ulp v"
    unfolding u by (simp add: powr_diff powr_add)
  show "2 ^ 52 \<le> v / ulp v"
    using binade_bounds(1) [OF assms] a by (simp add: pos_le_divide_eq)
  show "v / ulp v < 2 ^ 53"
    using binade_bounds(2) [OF assms] b by (simp add: pos_divide_less_eq)
qed

lemma roundDouble_pos_bounds:
  assumes "0 < v"
  shows "2 powr of_int \<lfloor>log 2 v\<rfloor> \<le> roundDouble v"
    and "roundDouble v \<le> 2 powr (of_int \<lfloor>log 2 v\<rfloor> + 1)"
proof -
  let ?e = "of_int \<lfloor>log 2 v\<rfloor> :: real"
  have u: "ulp v = 2 powr (?e - 52)" using assms by (simp add: ulp_def)
  have a: "2 powr ?e = 2 ^ 52 * ulp v"
    unfolding u by (simp add: powr_diff)
  have b: "2 powr (?e + 1) = 2 ^ 53 * ulp v"
    unfolding u by (simp add: powr_diff powr_add)
  have d: "roundDouble v = of_int (roundHalfEven (v / ulp v)) * ulp v"
    using assms by (simp add: roundDouble_def)
  have "roundHalfEven (of_int (2 ^ 52)) \<le> roundHalfEven (v / ulp v)"
    using scaled_mantissa(1) [OF assms] by (intro roundHalfEven_mono) simp
  then have lo: "(2 ^ 52 :: real) \<le> of_int (roundHalfEven (v / ulp v))"
    by (simp only: roundHalfEven_of_int) (metis of_int_le_iff of_int_numeral of_int_power)
  have "roundHalfEven (v / ulp v) \<le> roundHalfEven (of_int (2 ^ 53))"
    using scaled_mantissa(2) [OF assms] by (intro roundHalfEven_mono) simp
  then have hi: "of_int (roundHalfEven (v / ulp v)) \<le> (2 ^ 53 :: real)"
    by (simp only: roundHalfEven_of_int) (metis of_int_le_iff of_int_numeral of_int_power)
  show "2 powr ?e \<le> roundDouble v"
    unfolding a d using lo by (simp add: mult_right_mono)
  show "roundDouble v \<le> 2 powr (?e + 1)"
    unfolding b d using hi by (simp add: mult_right_mono)
qed

lemma roundDouble_mono_pos:
  assumes "0 < v" and "v \<le> w"
  shows "roundDouble v \<le> roundDouble w"
proof -
  have w: "0 < w" using assms by simp
  have le: "\<lfloor>log 2 v\<rfloor> \<le> \<lfloor>log 2 w\<rfloor>"
    using assms w by (intro floor_mono) simp
  show ?thesis
  proof (cases "\<lfloor>log 2 v\<rfloor> = \<lfloor>log 2 w\<rfloor>")
    case True
    then have u: "ulp v = ulp w" using assms w by (simp add: ulp_def)
    have "v / ulp w \<le> w / ulp w"
      using assms(2) by (intro divide_right_mono) (simp_all add: less_imp_le)
    then have "roundHalfEven (v / ulp w) \<le> roundHalfEven (w / ulp w)"
      by (rule roundHalfEven_mono)
    then have "of_int (roundHalfEven (v / ulp w)) * ulp w \<le> of_int (roundHalfEven (w / ulp w)) * ulp w"
      by (simp add: mult_right_mono)
    then show ?thesis using assms w by (simp add: roundDouble_def u)
  next
    case False
    then have "\<lfloor>log 2 v\<rfloor> + 1 \<le> \<lfloor>log 2 w\<rfloor>" using le by simp
    then have "(of_int \<lfloor>log 2 v\<rfloor> + 1 :: real) \<le> of_int \<lfloor>log 2 w\<rfloor>"
      by (metis of_int_1 of_int_add of_int_le_iff)
    then have "2 powr (of_int \<lfloor>log 2 v\<rfloor> + 1) \<le> (2 :: real) powr of_int \<lfloor>log 2 w\<rfloor>"
      by (simp add: powr_mono)
    with roundDouble_pos_bounds(2) [OF assms(1)] roundDouble_pos_bounds(1) [OF w]
    show ?thesis by linarith
  qed
qed

lemma roundDouble_pos: "0 < v \<Longrightarrow> 0 < roundDouble v"
  using roundDouble_pos_bounds(1) [of v] powr_gt_zero [of 2 "of_int \<lfloor>log 2 v\<rfloor>"] by linarith

lemma roundDouble_minus: "roundDouble (- v) = - roundDouble v"
  by (simp add: roundDouble_def ulp_def sgn_minus)

lemma roundDouble_zero [simp]: "roundDouble 0 = 0"
  by (simp add: roundDouble_def)

lemma roundDouble_mono:
  assumes "v \<le> w"
  shows "roundDouble v \<le> roundDouble w"
proof -
  consider "0 < v" | "v = 0" | "v < 0" "0 \<le> w" | "v < 0" "w < 0" by linarith
  then show ?thesis
  proof cases
    case 1
    then show ?thesis using assms by (rule roundDouble_mono_pos)
  next
    case 2
    then show ?thesis using assms roundDouble_pos [of w] by (cases "w = 0") auto
  next
    case 3
    have "roundDouble v < 0" using roundDouble_pos [of "- v"] 3(1) by (simp add: roundDouble_minus)
    moreover have "0 \<le> roundDouble w" using roundDouble_pos [of w] 3(2) by (cases "w = 0") auto
    ultimately show ?thesis by simp
  next
    case 4
    have "roundDouble (- w) \<le> roundDouble (- v)"
      using 4 assms by (intro roundDouble_mono_pos) simp_all
    then show ?thesis by (simp add: roundDouble_minus)
  qed
qed

lemma roundDouble_eval:
  assumes "0 < v" and "2 powr of_int k \<le> v" and "v < 2 powr (of_int k + 1)"
  shows "roundDouble v = of_int (roundHalfEven (v / 2 powr (of_int k - 52))) * 2 powr (of_int k - 52)"
proof -
  have "\<lfloor>log 2 v\<rfloor> = k"
    using floor_log_eq_powr_iff [of v 2 k] assms by simp
  then show ?thesis using assms(1) by (simp add: roundDouble_def ulp_def)
qed

lemma roundHalfEven_down:
  assumes "0 \<le> r" and "r < 1 / 2"
  shows "roundHalfEven (of_int n + r) = n"
proof -
  have "\<lfloor>of_int n + r\<rfloor> = n" using assms by linarith
  then show ?thesis using assms by (simp add: roundHalfEven_def)
qed

lemma roundHalfEven_up:
  assumes "1 / 2 < r" and "r < 1"
  shows "roundHalfEven (of_int n + r) = n + 1"
proof -
  have "\<lfloor>of_int n + r\<rfloor> = n" using assms by linarith
  then show ?thesis using assms by (simp add: roundHalfEven_def)
qed

lemma roundDouble_of_int:
  assumes "0 < n" and "n < 2 ^ 53"
  shows "roundDouble (of_int n) = of_int n"
proof -
  let ?v = "of_int n :: real"
  let ?e = "\<lfloor>log 2 ?v\<rfloor>"
  have v: "0 < ?v" using assms(1) by simp
  have "?v < of_int (2 ^ 53)" using assms(2) by (simp only: of_int_less_iff)
  then have "?v < 2 ^ 53" by simp
  then have "log 2 ?v < log 2 (2 ^ 53)"
    using v by (simp only: log_less_cancel_iff) 
  also have "log 2 (2 ^ 53) = (53 :: real)"
    using log_pow_cancel [of 2 53] by simp
  finally have "?e < 53" by (simp add: floor_less_iff)
  then have e: "?e \<le> 52" by simp
  define d where "d = nat (52 - ?e)"
  have "of_int ?e - 52 = - real d" using e by (simp add: d_def)
  then have u: "ulp ?v = 1 / 2 ^ d"
    using v by (simp add: ulp_def powr_minus powr_realpow divide_inverse)
  have "?v / ulp ?v = of_int (n * 2 ^ d)" by (simp add: u)
  then have "roundHalfEven (?v / ulp ?v) = n * 2 ^ d"
    by (simp only: roundHalfEven_of_int)
  then show ?thesis using v by (simp add: roundDouble_def u)
qed

lemma powr_9: "(2 :: real) powr of_int 9 = 512" "(2 :: real) powr (of_int 9 + 1) = 1024"
proof -
  have "(2 :: real) powr 9 = 2 ^ 9" by (rule powr_numeral) simp
  then show "(2 :: real) powr of_int 9 = 512" by simp
  have "(2 :: real) powr 10 = 2 ^ 10" by (rule powr_numeral) simp
  moreover have "(of_int 9 + 1 :: real) = 10" by simp
  ultimately show "(2 :: real) powr (of_int 9 + 1) = 1024" by simp
qed

lemma ulp_9: "(2 :: real) powr (of_int 9 - 52) = inverse (2 ^ 43)"
proof -
  have "(of_int 9 - 52 :: real) = - 43" by simp
  then have "(2 :: real) powr (of_int 9 - 52) = 2 powr (- 43)" by (simp only:)
  also have "\<dots> = inverse (2 powr 43)" by (rule powr_minus)
  also have "(2 :: real) powr 43 = 2 ^ 43" by (rule powr_numeral) simp
  finally show ?thesis .
qed

lemma roundDouble_near_540:
  "roundDouble (720 * (3 / 4 + 1 / 2 ^ 53)) = 540 + 1 / 2 ^ 43"
  "roundDouble (720 * (3 / 4 + 2 / 2 ^ 53)) = 540 + 1 / 2 ^ 43"
proof -
  have a: "roundDouble (720 * (3 / 4 + 1 / 2 ^ 53)) =
      of_int (roundHalfEven (720 * (3 / 4 + 1 / 2 ^ 53) / 2 powr (of_int 9 - 52))) * 2 powr (of_int 9 - 52)"
    by (rule roundDouble_eval) (simp_all only: powr_9, simp_all)
  have "720 * (3 / 4 + 1 / 2 ^ 53) / inverse (2 ^ 43) = (of_int 4749890231992320 + 45 / 64 :: real)"
    by simp
  moreover have "roundHalfEven (of_int 4749890231992320 + 45 / 64) = 4749890231992320 + 1"
    by (rule roundHalfEven_up) simp_all
  ultimately have "roundHalfEven (720 * (3 / 4 + 1 / 2 ^ 53) / inverse (2 ^ 43)) = 4749890231992320 + 1"
    by (simp only:)
  then show "roundDouble (720 * (3 / 4 + 1 / 2 ^ 53)) = 540 + 1 / 2 ^ 43"
    unfolding a ulp_9 by simp
  have b: "roundDouble (720 * (3 / 4 + 2 / 2 ^ 53)) =
      of_int (roundHalfEven (720 * (3 / 4 + 2 / 2 ^ 53) / 2 powr (of_int 9 - 52))) * 2 powr (of_int 9 - 52)"
    by (rule roundDouble_eval) (simp_all only: powr_9, simp_all)
  have "720 * (3 / 4 + 2 / 2 ^ 53) / inverse (2 ^ 43) = (of_int 4749890231992321 + 13 / 32 :: real)"
    by simp
  moreover have "roundHalfEven (of_int 4749890231992321 + 13 / 32) = 4749890231992321"
    by (rule roundHalfEven_down) simp_all
  ultimately have "roundHalfEven (720 * (3 / 4 + 2 / 2 ^ 53) / inverse (2 ^ 43)) = 4749890231992321"
    by (simp only:)
  then show "roundDouble (720 * (3 / 4 + 2 / 2 ^ 53)) = 540 + 1 / 2 ^ 43"
    unfolding b ulp_9 by simp
qed

lemma roundDouble_numeral:
  assumes "(numeral n :: int) < 2 ^ 53"
  shows "roundDouble (numeral n) = numeral n"
  using roundDouble_of_int [of "numeral n"] assms by simp

section \<open>Scaling and the classifier\<close>

lemma scaled_y:
  "k < length lms \<Longrightarrow>
   Point.y (scaledLandmarks cv lms ! k) = roundDouble (Point.y (lms ! k) * real (snd cv))"
  by (simp add: scaledLandmarks_def)

lemma scaled_less_imp_less:
  assumes "k < length lms" and "j < length lms"
    and "Point.y (scaledLandmarks cv lms ! k) < Point.y (scaledLandmarks cv lms ! j)"
  shows "Point.y (lms ! k) < Point.y (lms ! j)"
proof (rule ccontr)
  assume "\<not> Point.y (lms ! k) < Point.y (lms ! j)"
  then have "Point.y (lms ! j) * real (snd cv) \<le> Point.y (lms ! k) * real (snd cv)"
    by (simp add: mult_right_mono)
  then have "roundDouble (Point.y (lms ! j) * real (snd cv))
      \<le> roundDouble (Point.y (lms ! k) * real (snd cv))"
    by (rule roundDouble_mono)
  with assms show False by (simp add: scaled_y)
qed

text \<open>
  C9, as stated, fails. The products are doubles, and two different coordinates can have
  the same rounded product. At a canvas height of 720 the doubles \<open>3 / 4 + 2 ^ -53\<close> and
  \<open>3 / 4 + 2 ^ -52\<close> both scale to \<open>540 + 2 ^ -43\<close>: a thumb tip strictly above the next
  joint before scaling is level with it afterwards, and the classifier says yes on the
  raw landmarks and no on the scaled ones.
\<close>

theorem scaling_merges_coordinates:
  "thumbsUpActive nearTieHand = Inr True
   \<and> thumbsUpActive (scaledLandmarks (1280, 720) nearTieHand) = Inr False
   \<and> Point.y (nearTieHand ! 4) < Point.y (nearTieHand ! 3)
   \<and> Point.y (scaledLandmarks (1280, 720) nearTieHand ! 4)
       = Point.y (scaledLandmarks (1280, 720) nearTieHand ! 3)"
proof -
  have len: "21 \<le> length nearTieHand" "21 \<le> length (scaledLandmarks (1280, 720) nearTieHand)"
    by (simp_all add: nearTieHand_def dyadicHand_def)
  have raw: "thumbsUpActive nearTieHand = Inr True"
    by (simp add: thumbsUpActive_full [OF len(1)]) (simp add: nearTieHand_def dyadicHand_def)
  have y4: "Point.y (nearTieHand ! 4) = 3 / 4 + 1 / 2 ^ 53"
    and y3: "Point.y (nearTieHand ! 3) = 3 / 4 + 2 / 2 ^ 53"
    by (simp_all add: nearTieHand_def dyadicHand_def)
  have s4: "Point.y (scaledLandmarks (1280, 720) nearTieHand ! 4) = 540 + 1 / 2 ^ 43"
    using len(1) roundDouble_near_540(1) by (simp add: scaled_y y4 mult.commute)
  have s3: "Point.y (scaledLandmarks (1280, 720) nearTieHand ! 3) = 540 + 1 / 2 ^ 43"
    using len(1) roundDouble_near_540(2) by (simp add: scaled_y y3 mult.commute)
  have scaled: "thumbsUpActive (scaledLandmarks (1280, 720) nearTieHand) = Inr False"
    by (simp add: thumbsUpActive_full [OF len(2)] s4 s3)
  have "Point.y (nearTieHand ! 4) < Point.y (nearTieHand ! 3)"
    by (simp add: y4 y3)
  with raw scaled s4 s3 show ?thesis by simp
qed

text \<open>
  C9, amended. On a landmark set of at least 21 points and for every canvas size, the
  classifier throws neither on the raw nor on the scaled landmarks, and when it says yes
  on the scaled landmarks it says yes on the raw ones: rounding keeps order, though not
  strict order. The converse is what fails above. The code classifies the raw landmarks.
\<close>

theorem scaled_active_implies_raw_active:
  assumes "21 \<le> length landmarks"
  shows "\<exists>raw scaled.
    thumbsUpActive landmarks = Inr raw
    \<and> thumbsUpActive (scaledLandmarks cv landmarks) = Inr scaled
    \<and> (scaled \<longrightarrow> raw)"
proof -
  have len: "21 \<le> length (scaledLandmarks cv landmarks)" using assms by simp
  have lt: "\<And>k j. k < 21 \<Longrightarrow> j < 21 \<Longrightarrow>
      Point.y (scaledLandmarks cv landmarks ! k) < Point.y (scaledLandmarks cv landmarks ! j)
      \<Longrightarrow> Point.y (landmarks ! k) < Point.y (landmarks ! j)"
    using assms by (intro scaled_less_imp_less [of _ landmarks _ cv]) simp_all
  let ?raw = "Point.y (landmarks ! 4) < Point.y (landmarks ! 3)
       \<and> Point.y (landmarks ! 3) < Point.y (landmarks ! 2)
       \<and> Point.y (landmarks ! 8) > Point.y (landmarks ! 6)
       \<and> Point.y (landmarks ! 12) > Point.y (landmarks ! 10)
       \<and> Point.y (landmarks ! 16) > Point.y (landmarks ! 14)
       \<and> Point.y (landmarks ! 20) > Point.y (landmarks ! 18)"
  let ?sc = "scaledLandmarks cv landmarks"
  let ?scaled = "Point.y (?sc ! 4) < Point.y (?sc ! 3)
       \<and> Point.y (?sc ! 3) < Point.y (?sc ! 2)
       \<and> Point.y (?sc ! 8) > Point.y (?sc ! 6)
       \<and> Point.y (?sc ! 12) > Point.y (?sc ! 10)
       \<and> Point.y (?sc ! 16) > Point.y (?sc ! 14)
       \<and> Point.y (?sc ! 20) > Point.y (?sc ! 18)"
  have r: "thumbsUpActive landmarks = Inr ?raw"
    by (rule thumbsUpActive_full [OF assms])
  have s: "thumbsUpActive ?sc = Inr ?scaled"
    by (rule thumbsUpActive_full [OF len])
  have "?scaled \<longrightarrow> ?raw"
    using lt [of 4 3] lt [of 3 2] lt [of 6 8] lt [of 10 12] lt [of 14 16] lt [of 18 20]
    by simp
  with r s show ?thesis by blast
qed

theorem scaled_active_implies_raw_active_witness:
  "21 \<le> length dyadicHand
   \<and> thumbsUpActive (scaledLandmarks (1280, 720) dyadicHand) = Inr True
   \<and> thumbsUpActive dyadicHand = Inr True"
proof -
  have len: "21 \<le> length dyadicHand" "21 \<le> length (scaledLandmarks (1280, 720) dyadicHand)"
    by (simp_all add: dyadicHand_def)
  have scaled: "thumbsUpActive (scaledLandmarks (1280, 720) dyadicHand) = Inr True"
    using len(1)
    by (simp add: thumbsUpActive_full [OF len(2)] scaled_y) (simp add: dyadicHand_def roundDouble_numeral)
  from scaled_active_implies_raw_active [OF len(1), of "(1280, 720)"] scaled
  have "thumbsUpActive dyadicHand = Inr True" by auto
  with len(1) scaled show ?thesis by simp
qed

section \<open>Lifetime of a bubble along a run\<close>

lemma predict_rel_at:
  assumes refl: "\<And>s. Q s s"
    and trans: "\<And>s1 s2 s3. Q s1 s2 \<Longrightarrow> Q s2 s3 \<Longrightarrow> Q s1 s3"
    and step: "\<And>cv i lms n s n' s'.
                 processHand cfg rt (now f) cv i lms (n, s) = Inr (n', s') \<Longrightarrow> Q s s'"
    and view: "\<And>s c. Q s (s\<lparr>ctx := c\<rparr>)"
      "\<And>s k r. Q s (s\<lparr>activeHandsCount := k, rafPending := r\<rparr>)"
      "\<And>s r. Q s (s\<lparr>rafPending := r\<rparr>)"
  shows "Q st (snd (predict cfg rt f st))"
proof (cases "ready f \<and> canvas f \<noteq> None")
  case False
  then have "\<not> ready f \<or> canvas f = None" by blast
  then have "predict cfg rt f st = (Inr (), st\<lparr>rafPending := True\<rparr>)"
    using predict_not_ready predict_no_canvas by blast
  then show ?thesis by (simp add: view(3))
next
  case True
  then obtain cv where r: "ready f" and c: "canvas f = Some cv" by auto
  let ?st1 = "st\<lparr>ctx := clearRect (ctx st)\<rparr>"
  let ?r = "forEachHand cfg rt (now f) cv 0 (handsOf f) (0, ?st1)"
  have "Q ?st1 (snd ?r)"
    using forEachHand_rel [of Q cfg rt "now f" cv "(0, ?st1)" 0 "handsOf f"] refl trans step
    by simp
  with view(1) [of st "clearRect (ctx st)"] have loop: "Q st (snd ?r)"
    by (rule trans)
  show ?thesis
  proof (cases "fst ?r")
    case (Inl e)
    then show ?thesis using loop by (simp add: predict_ready [OF r c])
  next
    case (Inr k)
    have "Q st ((snd ?r)\<lparr>activeHandsCount := k, rafPending := True\<rparr>)"
      by (rule trans [OF loop view(2)])
    then show ?thesis using Inr by (simp add: predict_ready [OF r c])
  qed
qed

lemma animationFrame_rel_at:
  assumes refl: "\<And>s. Q s s"
    and trans: "\<And>s1 s2 s3. Q s1 s2 \<Longrightarrow> Q s2 s3 \<Longrightarrow> Q s1 s3"
    and step: "\<And>cv i lms n s n' s'.
                 processHand cfg rt (now f) cv i lms (n, s) = Inr (n', s') \<Longrightarrow> Q s s'"
    and view: "\<And>s c. Q s (s\<lparr>ctx := c\<rparr>)"
      "\<And>s k r. Q s (s\<lparr>activeHandsCount := k, rafPending := r\<rparr>)"
      "\<And>s r. Q s (s\<lparr>rafPending := r\<rparr>)"
  shows "Q st (animationFrame cfg rt f st)"
proof (cases "rafPending st")
  case False
  then show ?thesis by (simp add: animationFrame_def refl)
next
  case True
  have "Q (st\<lparr>rafPending := False\<rparr>) (snd (predict cfg rt f (st\<lparr>rafPending := False\<rparr>)))"
    by (rule predict_rel_at [of Q, OF refl trans step view])
  from trans [OF view(3) this] True show ?thesis
    by (simp add: animationFrame_def)
qed

lemma liveUntil_fields [simp]:
  "liveUntil b due (s\<lparr>ctx := c\<rparr>) = liveUntil b due s"
  "liveUntil b due (s\<lparr>activeHandsCount := k, rafPending := r\<rparr>) = liveUntil b due s"
  "liveUntil b due (s\<lparr>rafPending := r\<rparr>) = liveUntil b due s"
  "liveUntil b due (s\<lparr>activeHandsCount := k\<rparr>) = liveUntil b due s"
  by (simp_all add: liveUntil_def)

lemma processHand_liveUntil:
  assumes hand: "processHand cfg rt t cv i lms (n, s) = Inr (n', s')"
    and live: "liveUntil b due s" and due: "due \<le> t + BUBBLE_LIFETIME cfg"
  shows "liveUntil b due s'"
  using hand
proof (rule processHand_InrE)
  fix a
  assume s': "s' = (if a \<and> gateOpen cfg t i s
            then afterSpawn cfg t i (spawned cfg rt (scaledLandmarks cv lms) s)
                   (s\<lparr>ctx := handCtx a (scaledLandmarks cv lms) (ctx s)\<rparr>)
            else s\<lparr>ctx := handCtx a (scaledLandmarks cv lms) (ctx s)\<rparr>)"
  show ?thesis
  proof (cases "a \<and> gateOpen cfg t i s")
    case True
    then have "s' = afterSpawn cfg t i (spawned cfg rt (scaledLandmarks cv lms) s)
                   (s\<lparr>ctx := handCtx a (scaledLandmarks cv lms) (ctx s)\<rparr>)"
      unfolding s' by (rule if_P)
    then show ?thesis using live due by (auto simp add: liveUntil_def)
  next
    case False
    then have "s' = s\<lparr>ctx := handCtx a (scaledLandmarks cv lms) (ctx s)\<rparr>"
      unfolding s' by (rule if_not_P)
    then show ?thesis using live by simp
  qed
qed

lemma animationFrame_liveUntil:
  assumes live: "liveUntil b due st" and due: "due \<le> now f + BUBBLE_LIFETIME cfg"
  shows "liveUntil b due (animationFrame cfg rt f st)"
proof -
  have "liveUntil b due st \<longrightarrow> liveUntil b due (animationFrame cfg rt f st)"
    by (rule animationFrame_rel_at [where Q = "\<lambda>s s'. liveUntil b due s \<longrightarrow> liveUntil b due s'"])
      (auto intro: processHand_liveUntil [OF _ _ due])
  with live show ?thesis by simp
qed

lemma runTimeouts_liveUntil:
  assumes live: "liveUntil b due s" and early: "u < due"
  shows "liveUntil b due (runTimeouts u s)"
proof -
  have "id' b \<notin> snd ` {d \<in> set (timeouts s). fst d \<le> u}"
    using live early by (fastforce simp add: liveUntil_def)
  then have "b \<in> set (bubbles (runTimeouts u s))"
    using live by (simp add: runTimeouts_bubbles liveUntil_def)
  moreover have "(due, id' b) \<in> set (timeouts (runTimeouts u s))"
    using live early by (simp add: runTimeouts_timeouts liveUntil_def)
  moreover have "\<forall>d \<in> set (timeouts (runTimeouts u s)). snd d = id' b \<longrightarrow> due \<le> fst d"
    using live by (simp add: runTimeouts_timeouts liveUntil_def)
  ultimately show ?thesis by (simp add: liveUntil_def)
qed

lemma run_liveUntil:
  assumes later: "\<forall>g. AnimationFrame g \<in> set evs \<longrightarrow> due \<le> now g + BUBBLE_LIFETIME cfg"
    and early: "\<forall>u. TimersUpTo u \<in> set evs \<longrightarrow> u < due"
  shows "liveUntil b due s \<Longrightarrow> liveUntil b due (fold (hostStep cfg rt) evs s)"
  using later early
proof (induction evs arbitrary: s)
  case Nil
  then show ?case by simp
next
  case (Cons ev evs)
  have "liveUntil b due (hostStep cfg rt ev s)"
  proof (cases ev)
    case (AnimationFrame g)
    then have "due \<le> now g + BUBBLE_LIFETIME cfg" using Cons.prems(2) by simp
    from animationFrame_liveUntil [OF Cons.prems(1) this] AnimationFrame
    show ?thesis by (simp add: hostStep_def)
  next
    case (TimersUpTo u)
    then have "u < due" using Cons.prems(3) by simp
    from runTimeouts_liveUntil [OF Cons.prems(1) this] TimersUpTo
    show ?thesis by (simp add: hostStep_def)
  qed
  moreover have "\<forall>g. AnimationFrame g \<in> set evs \<longrightarrow> due \<le> now g + BUBBLE_LIFETIME cfg"
    and "\<forall>u. TimersUpTo u \<in> set evs \<longrightarrow> u < due"
    using Cons.prems(2,3) by simp_all
  ultimately show ?case using Cons.IH by simp
qed

lemma liveUntil_expired:
  assumes live: "liveUntil b due s" and late: "due \<le> u"
  shows "\<forall>c \<in> set (bubbles (runTimeouts u s)). id' c \<noteq> id' b"
    and "(due, id' b) \<notin> set (timeouts (runTimeouts u s))"
proof -
  have "(due, id' b) \<in> {d \<in> set (timeouts s). fst d \<le> u}"
    using live late by (simp add: liveUntil_def)
  then have "id' b \<in> snd ` {d \<in> set (timeouts s). fst d \<le> u}"
    by force
  then have run: "id' b \<in> snd ` {d \<in> set (timeouts s). fst d \<le> u}" .
  show "\<forall>c \<in> set (bubbles (runTimeouts u s)). id' c \<noteq> id' b"
  proof
    fix c
    assume "c \<in> set (bubbles (runTimeouts u s))"
    then have "id' c \<notin> snd ` {d \<in> set (timeouts s). fst d \<le> u}"
      by (simp add: runTimeouts_bubbles)
    with run show "id' c \<noteq> id' b" by metis
  qed
  show "(due, id' b) \<notin> set (timeouts (runTimeouts u s))"
    using late by (simp add: runTimeouts_timeouts)
qed

lemma animationFrame_timeouts:
  "\<exists>new. bubbles (animationFrame cfg rt f st) = bubbles st @ new \<and>
     timeouts (animationFrame cfg rt f st)
       = timeouts st @ map (\<lambda>c. (now f + BUBBLE_LIFETIME cfg, id' c)) new"
proof (rule animationFrame_rel_at
    [where Q = "\<lambda>s s'. \<exists>new. bubbles s' = bubbles s @ new \<and>
       timeouts s' = timeouts s @ map (\<lambda>c. (now f + BUBBLE_LIFETIME cfg, id' c)) new"])
  fix s :: AppState
  have "bubbles s = bubbles s @ [] \<and>
       timeouts s = timeouts s @ map (\<lambda>c. (now f + BUBBLE_LIFETIME cfg, id' c)) []"
    by simp
  then show "\<exists>new. bubbles s = bubbles s @ new \<and>
       timeouts s = timeouts s @ map (\<lambda>c. (now f + BUBBLE_LIFETIME cfg, id' c)) new"
    by (rule exI)
next
  fix s1 s2 s3 :: AppState
  assume "\<exists>new. bubbles s2 = bubbles s1 @ new \<and>
       timeouts s2 = timeouts s1 @ map (\<lambda>c. (now f + BUBBLE_LIFETIME cfg, id' c)) new"
    and "\<exists>new. bubbles s3 = bubbles s2 @ new \<and>
       timeouts s3 = timeouts s2 @ map (\<lambda>c. (now f + BUBBLE_LIFETIME cfg, id' c)) new"
  then obtain new1 new2 where "bubbles s2 = bubbles s1 @ new1"
    "timeouts s2 = timeouts s1 @ map (\<lambda>c. (now f + BUBBLE_LIFETIME cfg, id' c)) new1"
    "bubbles s3 = bubbles s2 @ new2"
    "timeouts s3 = timeouts s2 @ map (\<lambda>c. (now f + BUBBLE_LIFETIME cfg, id' c)) new2"
    by blast
  then have "bubbles s3 = bubbles s1 @ (new1 @ new2) \<and>
       timeouts s3 = timeouts s1 @ map (\<lambda>c. (now f + BUBBLE_LIFETIME cfg, id' c)) (new1 @ new2)"
    by simp
  then show "\<exists>new. bubbles s3 = bubbles s1 @ new \<and>
       timeouts s3 = timeouts s1 @ map (\<lambda>c. (now f + BUBBLE_LIFETIME cfg, id' c)) new"
    by (rule exI)
next
  fix cv i lms n n' and s s' :: AppState
  assume "processHand cfg rt (now f) cv i lms (n, s) = Inr (n', s')"
  then show "\<exists>new. bubbles s' = bubbles s @ new \<and>
       timeouts s' = timeouts s @ map (\<lambda>c. (now f + BUBBLE_LIFETIME cfg, id' c)) new"
  proof (rule processHand_InrE)
    fix a
    assume s': "s' = (if a \<and> gateOpen cfg (now f) i s
            then afterSpawn cfg (now f) i (spawned cfg rt (scaledLandmarks cv lms) s)
                   (s\<lparr>ctx := handCtx a (scaledLandmarks cv lms) (ctx s)\<rparr>)
            else s\<lparr>ctx := handCtx a (scaledLandmarks cv lms) (ctx s)\<rparr>)"
    show ?thesis
    proof (cases "a \<and> gateOpen cfg (now f) i s")
      case True
      then have "bubbles s' = bubbles s @ [spawned cfg rt (scaledLandmarks cv lms) s] \<and>
         timeouts s' = timeouts s @ map (\<lambda>c. (now f + BUBBLE_LIFETIME cfg, id' c))
            [spawned cfg rt (scaledLandmarks cv lms) s]"
        by (simp add: s')
      then show ?thesis by (rule exI)
    next
      case False
      then have "bubbles s' = bubbles s @ [] \<and>
         timeouts s' = timeouts s @ map (\<lambda>c. (now f + BUBBLE_LIFETIME cfg, id' c)) []"
        by (simp add: s')
      then show ?thesis by (rule exI)
    qed
  qed
qed simp_all

lemma spawn_liveUntil:
  assumes frame: "bubbles (animationFrame cfg rt f st) = bubbles st @ new" and new: "b \<in> set new"
    and fresh: "id' b \<notin> snd ` set (timeouts st)"
  shows "liveUntil b (now f + BUBBLE_LIFETIME cfg) (animationFrame cfg rt f st)"
proof -
  from animationFrame_timeouts [of cfg rt f st] frame
  have t: "timeouts (animationFrame cfg rt f st)
       = timeouts st @ map (\<lambda>c. (now f + BUBBLE_LIFETIME cfg, id' c)) new"
    by auto
  show ?thesis
    using new fresh by (force simp add: liveUntil_def frame t)
qed

lemma hostStep_live_subset:
  "set (bubbles (hostStep cfg rt ev s)) \<subseteq> set (bubbles s) \<union> set (spawnedBy cfg rt [ev] s)"
proof (cases ev)
  case (AnimationFrame g)
  from animationFrame_timeouts [of cfg rt g s]
  obtain new where "bubbles (animationFrame cfg rt g s) = bubbles s @ new" by blast
  then show ?thesis using AnimationFrame by (simp add: hostStep_def)
next
  case (TimersUpTo u)
  then show ?thesis by (auto simp add: hostStep_def runTimeouts_bubbles)
qed

lemma run_live_subset:
  "set (bubbles (fold (hostStep cfg rt) evs s)) \<subseteq> set (bubbles s) \<union> set (spawnedBy cfg rt evs s)"
proof (induction evs arbitrary: s)
  case Nil
  then show ?case by simp
next
  case (Cons ev evs)
  have "set (bubbles (fold (hostStep cfg rt) (ev # evs) s))
      \<subseteq> set (bubbles (hostStep cfg rt ev s)) \<union> set (spawnedBy cfg rt evs (hostStep cfg rt ev s))"
    using Cons.IH [of "hostStep cfg rt ev s"] by simp
  also have "\<dots> \<subseteq> (set (bubbles s) \<union> set (spawnedBy cfg rt [ev] s))
      \<union> set (spawnedBy cfg rt evs (hostStep cfg rt ev s))"
    using hostStep_live_subset [of cfg rt ev s] by blast
  also have "\<dots> = set (bubbles s) \<union> set (spawnedBy cfg rt (ev # evs) s)"
    by (simp only: spawnedBy_Cons [of cfg rt ev evs s] set_append Un_assoc)
  finally show ?case .
qed

text \<open>
  C5, amended. Take a bubble that an animation frame at time \<open>t\<close> spawns and whose id no
  timeout pending before that frame carries. Let the run go on with any animation frames
  whose times are not before \<open>t\<close>, whatever they spawn, and with timers run up to times
  before \<open>t + BUBBLE_LIFETIME\<close>: the bubble is live and its timeout pending. Once the timers
  are run up to a time from \<open>t + BUBBLE_LIFETIME\<close> on, the bubble is gone and its timeout
  has run and is no longer pending; whatever follows, a bubble equal to it is live again
  only if a later frame spawns one. The callback of a timeout never fails: it removes the
  live bubbles that carry its id, which is none (and the state stays as it is) when no
  live bubble does, and exactly the one bubble when the live ids are distinct.
\<close>

theorem bubble_lives_its_lifetime:
  assumes "bubbles (animationFrame cfg rt f st) = bubbles st @ new" and "b \<in> set new"
    and "id' b \<notin> snd ` set (timeouts st)"
    and "\<forall>g. AnimationFrame g \<in> set evs \<longrightarrow> now f \<le> now g"
    and "\<forall>u. TimersUpTo u \<in> set evs \<longrightarrow> u < now f + BUBBLE_LIFETIME cfg"
  shows "b \<in> set (bubbles (fold (hostStep cfg rt) evs (animationFrame cfg rt f st)))
    \<and> (now f + BUBBLE_LIFETIME cfg, id' b)
         \<in> set (timeouts (fold (hostStep cfg rt) evs (animationFrame cfg rt f st)))
    \<and> (\<forall>u. now f + BUBBLE_LIFETIME cfg \<le> u \<longrightarrow>
          b \<notin> set (bubbles (runTimeouts u (fold (hostStep cfg rt) evs (animationFrame cfg rt f st))))
          \<and> (now f + BUBBLE_LIFETIME cfg, id' b)
               \<notin> set (timeouts (runTimeouts u
                      (fold (hostStep cfg rt) evs (animationFrame cfg rt f st))))
          \<and> (\<forall>more. b \<in> set (bubbles (fold (hostStep cfg rt) more
                   (runTimeouts u (fold (hostStep cfg rt) evs (animationFrame cfg rt f st)))))
                \<longrightarrow> b \<in> set (spawnedBy cfg rt more
                   (runTimeouts u (fold (hostStep cfg rt) evs (animationFrame cfg rt f st))))))
    \<and> (\<forall>j s. j \<notin> id' ` set (bubbles s) \<longrightarrow> expire j s = s)
    \<and> (\<forall>j s. set (bubbles (expire j s)) = {c \<in> set (bubbles s). id' c \<noteq> j})
    \<and> (\<forall>c s. distinct (map id' (bubbles s)) \<and> c \<in> set (bubbles s) \<longrightarrow>
          set (bubbles (expire (id' c) s)) = set (bubbles s) - {c})"
proof -
  let ?due = "now f + BUBBLE_LIFETIME cfg"
  let ?S = "fold (hostStep cfg rt) evs (animationFrame cfg rt f st)"
  have start: "liveUntil b ?due (animationFrame cfg rt f st)"
    by (rule spawn_liveUntil [OF assms(1,2,3)])
  have later: "\<forall>g. AnimationFrame g \<in> set evs \<longrightarrow> ?due \<le> now g + BUBBLE_LIFETIME cfg"
    using assms(4) by simp
  have live: "liveUntil b ?due ?S"
    by (rule run_liveUntil [OF later assms(5) start])
  have p1: "b \<in> set (bubbles ?S)" and p2: "(?due, id' b) \<in> set (timeouts ?S)"
    using live by (simp_all add: liveUntil_def)
  have p3: "\<forall>u. ?due \<le> u \<longrightarrow>
          b \<notin> set (bubbles (runTimeouts u ?S))
          \<and> (?due, id' b) \<notin> set (timeouts (runTimeouts u ?S))
          \<and> (\<forall>more. b \<in> set (bubbles (fold (hostStep cfg rt) more (runTimeouts u ?S)))
                \<longrightarrow> b \<in> set (spawnedBy cfg rt more (runTimeouts u ?S)))"
  proof (intro allI impI conjI)
    fix u
    assume late: "?due \<le> u"
    from liveUntil_expired(1) [OF live late]
    show gone: "b \<notin> set (bubbles (runTimeouts u ?S))" by blast
    from liveUntil_expired(2) [OF live late]
    show "(?due, id' b) \<notin> set (timeouts (runTimeouts u ?S))" .
    fix more
    assume "b \<in> set (bubbles (fold (hostStep cfg rt) more (runTimeouts u ?S)))"
    with run_live_subset [of cfg rt more "runTimeouts u ?S"] gone
    show "b \<in> set (spawnedBy cfg rt more (runTimeouts u ?S))" by blast
  qed
  have p4: "\<forall>j s. j \<notin> id' ` set (bubbles s) \<longrightarrow> expire j s = s"
    using expire_absent by blast
  have p5: "\<forall>j s. set (bubbles (expire j s)) = {c \<in> set (bubbles s). id' c \<noteq> j}"
    by (simp add: expire_def)
  have p6: "\<forall>c s. distinct (map id' (bubbles s)) \<and> c \<in> set (bubbles s) \<longrightarrow>
          set (bubbles (expire (id' c) s)) = set (bubbles s) - {c}"
    using expire_distinct by blast
  show ?thesis by (intro conjI p1 p2 p3 p4 p5 p6)
qed

theorem bubble_lives_its_lifetime_witness:
  "bubbles (animationFrame sampleConstants (sampleRuntime (\<lambda>k. 1 / 2))
       (sampleFrame 1000 [thumbsUpHand]) initialState)
     = bubbles initialState
       @ [spawned sampleConstants (sampleRuntime (\<lambda>k. 1 / 2))
            (scaledLandmarks (1280, 720) thumbsUpHand) initialState]
   \<and> id' (spawned sampleConstants (sampleRuntime (\<lambda>k. 1 / 2))
            (scaledLandmarks (1280, 720) thumbsUpHand) initialState)
       \<notin> snd ` set (timeouts initialState)
   \<and> now (sampleFrame 1000 [thumbsUpHand]) \<le> now (sampleFrame 2000 [thumbsUpHand])
   \<and> (8999 :: real) < now (sampleFrame 1000 [thumbsUpHand]) + BUBBLE_LIFETIME sampleConstants
   \<and> spawned sampleConstants (sampleRuntime (\<lambda>k. 1 / 2))
            (scaledLandmarks (1280, 720) thumbsUpHand) initialState
       \<in> set (bubbles (fold (hostStep sampleConstants (sampleRuntime (\<lambda>k. 1 / 2)))
            [AnimationFrame (sampleFrame 2000 [thumbsUpHand]), TimersUpTo 8999]
            (animationFrame sampleConstants (sampleRuntime (\<lambda>k. 1 / 2))
               (sampleFrame 1000 [thumbsUpHand]) initialState)))
   \<and> map id' (bubbles (fold (hostStep sampleConstants (sampleRuntime (\<lambda>k. 1 / 2)))
            [AnimationFrame (sampleFrame 2000 [thumbsUpHand]), TimersUpTo 8999]
            (animationFrame sampleConstants (sampleRuntime (\<lambda>k. 1 / 2))
               (sampleFrame 1000 [thumbsUpHand]) initialState)))
       = [''i'', ''i'']
   \<and> now (sampleFrame 1000 [thumbsUpHand]) + BUBBLE_LIFETIME sampleConstants \<le> (9000 :: real)
   \<and> spawned sampleConstants (sampleRuntime (\<lambda>k. 1 / 2))
            (scaledLandmarks (1280, 720) thumbsUpHand) initialState
       \<notin> set (bubbles (runTimeouts 9000
            (fold (hostStep sampleConstants (sampleRuntime (\<lambda>k. 1 / 2)))
               [AnimationFrame (sampleFrame 2000 [thumbsUpHand]), TimersUpTo 8999]
               (animationFrame sampleConstants (sampleRuntime (\<lambda>k. 1 / 2))
                  (sampleFrame 1000 [thumbsUpHand]) initialState))))"
proof -
  let ?r = "sampleRuntime (\<lambda>k. 1 / 2)"
  let ?f = "sampleFrame 1000 [thumbsUpHand]"
  let ?g = "sampleFrame 2000 [thumbsUpHand]"
  let ?b = "spawned sampleConstants ?r (scaledLandmarks (1280, 720) thumbsUpHand) initialState"
  let ?s1 = "animationFrame sampleConstants ?r ?f initialState"
  let ?evs = "[AnimationFrame ?g, TimersUpTo 8999]"
  let ?S = "fold (hostStep sampleConstants ?r) ?evs ?s1"
  have g1: "gateOpen sampleConstants 1000 0 initialState"
    by (simp add: gateOpen_def)
  have s1: "bubbles ?s1 = bubbles initialState @ [?b]"
    "timeouts ?s1 = [(9000, ''i'')]" "rafPending ?s1" "lastSpawnTimeRef ?s1 = [1000, 0]"
    by (simp_all add: held_frame_state [OF _ g1] randomId_half)
  have fresh: "id' ?b \<notin> snd ` set (timeouts initialState)" by simp
  have later: "\<forall>g. AnimationFrame g \<in> set ?evs \<longrightarrow> now ?f \<le> now g" by simp
  have early: "\<forall>u. TimersUpTo u \<in> set ?evs \<longrightarrow> u < now ?f + BUBBLE_LIFETIME sampleConstants"
    by simp
  have new: "?b \<in> set [?b]" by simp
  note life = bubble_lives_its_lifetime [OF s1(1) new fresh later early]
  have a: "?b \<in> set (bubbles ?S)"
    by (rule life [THEN conjunct1])
  have t: "now ?f + BUBBLE_LIFETIME sampleConstants \<le> (9000 :: real)" by simp
  have b: "?b \<notin> set (bubbles (runTimeouts 9000 ?S))"
    by (rule life [THEN conjunct2, THEN conjunct2, THEN conjunct1, rule_format, OF t,
          THEN conjunct1])
  have g2: "gateOpen sampleConstants 2000 0 ?s1"
    by (simp add: gateOpen_def s1(4))
  have s2: "map id' (bubbles (animationFrame sampleConstants ?r ?g ?s1)) = [''i'', ''i'']"
    "timeouts (animationFrame sampleConstants ?r ?g ?s1) = [(9000, ''i''), (10000, ''i'')]"
    by (simp_all add: held_frame_state [OF s1(3) g2] s1 randomId_half)
  have none: "{d \<in> set (timeouts (animationFrame sampleConstants ?r ?g ?s1)). fst d \<le> 8999} = {}"
    unfolding s2(2) by auto
  have "bubbles ?S = bubbles (runTimeouts 8999 (animationFrame sampleConstants ?r ?g ?s1))"
    by (simp add: hostStep_def)
  also have "\<dots> = filter (\<lambda>b. id' b \<notin> snd `
        {d \<in> set (timeouts (animationFrame sampleConstants ?r ?g ?s1)). fst d \<le> 8999})
      (bubbles (animationFrame sampleConstants ?r ?g ?s1))"
    by (rule runTimeouts_bubbles)
  also have "\<dots> = bubbles (animationFrame sampleConstants ?r ?g ?s1)"
    unfolding none by simp
  finally have c: "map id' (bubbles ?S) = [''i'', ''i'']"
    by (simp only: s2(1))
  have d: "now ?f \<le> now ?g" and e: "(8999 :: real) < now ?f + BUBBLE_LIFETIME sampleConstants"
    by simp_all
  show ?thesis by (intro conjI s1(1) fresh d e a c t b)
qed

end
